theory Spec2Isabelle
  imports Complex_Main "HOL-Library.AList"
begin

section \<open>Remote calls: SpotifyConnection._call_with_timeout and _withRetry\<close>

text \<open>
  The exceptions that reach \<open>_withRetry\<close>. \<open>ApiTimeout n\<close> is the \<open>TimeoutError\<close> that
  \<open>_call_with_timeout\<close> raises after \<open>n\<close> seconds; \<open>TimeoutError\<close> is one raised by the
  operation itself (both are caught by \<open>except TimeoutError\<close>). A \<open>SpotifyException\<close> carries
  its \<open>http_status\<close>, the \<open>Retry-After\<close> header when the response has one (a number of
  seconds) and its message. \<open>OtherError\<close> is any other \<open>Exception\<close>. \<open>FailedAfter n\<close> is
  \<open>Exception(f"Failed after {maxRetries} attempts")\<close>, built at the end of \<open>_withRetry\<close>.
\<close>

datatype exn =
    ApiTimeout nat
  | TimeoutError string
  | SpotifyException int "nat option" string
  | OtherError string
  | FailedAfter nat

text \<open>
  One run of a remote operation either returns, raises, or is still running when the
  timeout expires. An operation is a function of the state of the remote side.
\<close>

datatype 'a attempt = Returns 'a | Raises exn | Hangs

type_synonym ('w, 'a) remote_op = "'w \<Rightarrow> 'a attempt \<times> 'w"

text \<open>
  The connection object: \<open>apiCallCount\<close>, the durations handed to \<open>time.sleep\<close> so far
  (oldest first), and the state of the remote side.
\<close>

record 'w conn =
  apiCallCount :: nat
  slept :: "nat list"
  remote :: 'w

definition call_with_timeout :: "('w, 'a) remote_op \<Rightarrow> nat \<Rightarrow> 'w \<Rightarrow> (exn + 'a) \<times> 'w" where
  "call_with_timeout func timeout w =
     (case func w of
        (Hangs, w') \<Rightarrow> (Inl (ApiTimeout timeout), w')
      | (Raises e, w') \<Rightarrow> (Inl e, w')
      | (Returns result, w') \<Rightarrow> (Inr result, w'))"

definition maxRetries :: nat where
  "maxRetries = 5"

definition sleep :: "nat \<Rightarrow> 'w conn \<Rightarrow> 'w conn" where
  "sleep t c = c\<lparr>slept := slept c @ [t]\<rparr>"

text \<open>
  The \<open>except\<close> clauses of \<open>_withRetry\<close>, after \<open>retryCount += 1\<close>: the exception is either
  raised again or the loop goes on, possibly after a sleep.
\<close>

datatype action = Reraise | Retry

fun on_failure :: "exn \<Rightarrow> nat \<Rightarrow> 'w conn \<Rightarrow> action \<times> 'w conn" where
  "on_failure (ApiTimeout n) retryCount c =
     (if retryCount \<ge> maxRetries then (Reraise, c) else (Retry, c))"
| "on_failure (TimeoutError m) retryCount c =
     (if retryCount \<ge> maxRetries then (Reraise, c) else (Retry, c))"
| "on_failure (SpotifyException status hdr m) retryCount c =
     (if status = 429 then (Retry, sleep (case hdr of None \<Rightarrow> 1 | Some retryAfter \<Rightarrow> retryAfter) c)
      else if status = 503 then (Retry, sleep 5 c)
      else if status \<ge> 500 then (Retry, sleep 10 c)
      else if retryCount \<ge> maxRetries then (Reraise, c) else (Retry, c))"
| "on_failure (OtherError m) retryCount c =
     (if retryCount \<ge> maxRetries then (Reraise, c) else (Retry, c))"
| "on_failure (FailedAfter n) retryCount c =
     (if retryCount \<ge> maxRetries then (Reraise, c) else (Retry, c))"

function withRetry_loop :: "('w, 'a) remote_op \<Rightarrow> nat \<Rightarrow> 'w conn \<Rightarrow> (exn + 'a) \<times> 'w conn" where
  "withRetry_loop func retryCount c =
     (if retryCount < maxRetries then
        (case call_with_timeout func 60 (remote c) of
           (Inr result, w') \<Rightarrow> (Inr result, c\<lparr>remote := w', apiCallCount := apiCallCount c + 1\<rparr>)
         | (Inl e, w') \<Rightarrow>
             (case on_failure e (retryCount + 1) (c\<lparr>remote := w'\<rparr>) of
                (Reraise, c') \<Rightarrow> (Inl e, c')
              | (Retry, c') \<Rightarrow> withRetry_loop func (retryCount + 1) c'))
      else (Inl (FailedAfter maxRetries), c))"
  by pat_completeness auto
termination
  by (relation "measure (\<lambda>(func, retryCount, c). maxRetries - retryCount)") auto

definition withRetry :: "('w, 'a) remote_op \<Rightarrow> 'w conn \<Rightarrow> (exn + 'a) \<times> 'w conn" where
  "withRetry func c = withRetry_loop func 0 c"

text \<open>The outcomes of the first \<open>n\<close> runs of an operation, each with a 60 second timeout.\<close>

fun run_attempts :: "('w, 'a) remote_op \<Rightarrow> nat \<Rightarrow> 'w \<Rightarrow> (exn + 'a) list" where
  "run_attempts func 0 w = []"
| "run_attempts func (Suc n) w =
     (case call_with_timeout func 60 w of (r, w') \<Rightarrow> r # run_attempts func n w')"


text \<open>
  The failures whose handler raises the exception again once \<open>retryCount\<close> has reached
  \<open>maxRetries\<close>: every one except a \<open>SpotifyException\<close> with status 429, 503 or 500 and above,
  whose handlers sleep and never raise.
\<close>

fun reraised :: "exn \<Rightarrow> bool" where
  "reraised (SpotifyException status hdr m) = (\<not> (status = 429 \<or> status = 503 \<or> status \<ge> 500))"
| "reraised e = True"

text \<open>Operations with a fixed behaviour, and a fresh connection, used to run the model.\<close>

definition always_raises :: "exn \<Rightarrow> (unit, 'a) remote_op" where
  "always_raises e w = (Raises e, w)"

text \<open>An operation that fails with \<open>e\<close> on its first \<open>n\<close> runs and returns \<open>r\<close> afterwards.\<close>

definition fails_then_returns :: "exn \<Rightarrow> 'a \<Rightarrow> (nat, 'a) remote_op" where
  "fails_then_returns e r n = (if n = 0 then (Returns r, 0) else (Raises e, n - 1))"

definition conn0 :: "'w \<Rightarrow> 'w conn" where
  "conn0 w = \<lparr>apiCallCount = 0, slept = [], remote = w\<rparr>"

text \<open>
  The underlying error an exception carries: an exception that \<open>_withRetry\<close> raises again is
  the underlying error itself; \<open>Exception("Failed after 5 attempts")\<close> has a message only.
\<close>

fun carried :: "exn \<Rightarrow> exn option" where
  "carried (FailedAfter n) = None"
| "carried e = Some e"

section \<open>Strings\<close>

text \<open>
  Python's \<open>str.lower\<close>, on the ASCII letters: a character between \<open>A\<close> and \<open>Z\<close> is moved
  to its lower-case letter (32 code points up, which sets the bit of value 32), every other
  character is kept. Python's \<open>needle in hay\<close> on
  strings holds when \<open>needle\<close> occurs in \<open>hay\<close> as a contiguous run of characters.
\<close>

fun lower_char :: "char \<Rightarrow> char" where
  "lower_char (Char b0 b1 b2 b3 b4 b5 b6 b7) =
     (if (65::nat) \<le> of_char (Char b0 b1 b2 b3 b4 b5 b6 b7) \<and>
         of_char (Char b0 b1 b2 b3 b4 b5 b6 b7) \<le> (90::nat)
      then Char b0 b1 b2 b3 b4 True b6 b7
      else Char b0 b1 b2 b3 b4 b5 b6 b7)"

definition lower :: "string \<Rightarrow> string" where
  "lower s = map lower_char s"

fun starts_with :: "string \<Rightarrow> string \<Rightarrow> bool" where
  "starts_with [] hay = True"
| "starts_with (x # xs) [] = False"
| "starts_with (x # xs) (y # ys) = (x = y \<and> starts_with xs ys)"

fun str_in :: "string \<Rightarrow> string \<Rightarrow> bool" where
  "str_in needle [] = (needle = [])"
| "str_in needle (y # ys) = (starts_with needle (y # ys) \<or> str_in needle ys)"

section \<open>Title exclusion and the artist blacklist\<close>

definition isTitleExcluded :: "string \<Rightarrow> string list \<Rightarrow> bool" where
  "isTitleExcluded title excludedWords =
     (if excludedWords = [] \<or> title = [] then False
      else list_ex (\<lambda>word. str_in (lower word) (lower title)) excludedWords)"

text \<open>
  The blacklist test, written the same way in \<open>generateRadio\<close> (on the name of the chosen
  artist) and in \<open>main\<close> (on the artist name of the track): it is made only when
  \<open>config["artistBlacklist"]\<close> is set, over the names in \<open>artistBlacklistNames\<close>.
\<close>

definition isBlacklisted :: "bool \<Rightarrow> string list \<Rightarrow> string \<Rightarrow> bool" where
  "isBlacklisted artistBlacklist artistBlacklistNames artistName =
     (if artistBlacklist
      then list_ex (\<lambda>blacklistedName. str_in (lower blacklistedName) (lower artistName))
             artistBlacklistNames
      else False)"

section \<open>Weights\<close>

text \<open>
  Numbers are exact: \<open>weightModifier\<close> and the weights are reals, and \<open>tooMuchCounts\<close> and
  \<open>topPositions\<close> are dictionaries from track ids to natural numbers. The weight of
  \<open>generateRadio\<close> (computed when \<open>removeRadioSongsByWeight\<close> is set):
\<close>

definition radio_weight :: "(string \<rightharpoonup> nat) \<Rightarrow> (string \<rightharpoonup> nat) \<Rightarrow> real \<Rightarrow> string \<Rightarrow> real" where
  "radio_weight tooMuchCounts topPositions weightModifier tid =
     (let weight = 10;
          tmCount = (case tooMuchCounts tid of None \<Rightarrow> 0 | Some n \<Rightarrow> n);
          weight = (if tmCount = 1 then weight - 5 * weightModifier
                    else if tmCount = 2 then weight - 7 * weightModifier
                    else if tmCount \<ge> 3 then weight - 9 * weightModifier
                    else weight);
          weight = (case topPositions tid of
                      None \<Rightarrow> weight
                    | Some pos \<Rightarrow>
                        if pos < 50 then weight - 5 * weightModifier
                        else if pos < 100 then weight - 4 * weightModifier
                        else if pos < 200 then weight - 3 * weightModifier
                        else weight)
      in max 0 (min 10 weight))"

text \<open>
  The resolved metadata of a track: title, name of the first artist, id of the first artist
  (\<open>None\<close> when the track has no artist). \<open>getTracksInfo\<close> returns a dictionary from track
  ids to it; a dictionary whose order of insertion matters is an association list.
\<close>

type_synonym track_info = "string \<times> string \<times> string option"

text \<open>
  The sum, over the resolved tracks of an artist that are in \<open>tooMuchCounts\<close>, of their counts.
\<close>

fun artistCount_loop ::
  "(string \<rightharpoonup> nat) \<Rightarrow> string option \<Rightarrow> (string \<times> track_info) list \<Rightarrow> nat \<Rightarrow> nat" where
  "artistCount_loop tooMuchCounts artistId [] artistCount = artistCount"
| "artistCount_loop tooMuchCounts artistId ((trackId, (n, a, trackArtistId)) # rest) artistCount =
     (if trackArtistId = artistId \<and> tooMuchCounts trackId \<noteq> None
      then artistCount_loop tooMuchCounts artistId rest (artistCount + the (tooMuchCounts trackId))
      else artistCount_loop tooMuchCounts artistId rest artistCount)"

text \<open>The weight of the master loop of \<open>main\<close>, as it stands when the draw is made.\<close>

definition master_weight ::
  "bool \<Rightarrow> (string \<times> track_info) list \<Rightarrow> string set \<Rightarrow>
   (string \<rightharpoonup> nat) \<Rightarrow> (string \<rightharpoonup> nat) \<Rightarrow> real \<Rightarrow> string \<Rightarrow> real" where
  "master_weight artistIHearTooMuch allInfo artistTooMuch tooMuchCounts topPositions
       weightModifier tid =
     (let weight = 10;
          count = (case tooMuchCounts tid of None \<Rightarrow> 0 | Some n \<Rightarrow> n);
          weight = (if count = 1 then weight - 5 * weightModifier
                    else if count = 2 then weight - 7 * weightModifier
                    else if count \<ge> 3 then weight - 9 * weightModifier
                    else weight);
          weight = (case topPositions tid of
                      None \<Rightarrow> weight
                    | Some pos \<Rightarrow>
                        if pos < 50 then weight - 5 * weightModifier
                        else if pos < 100 then weight - 4 * weightModifier
                        else if pos < 200 then weight - 3 * weightModifier
                        else weight)
      in case map_of allInfo tid of
           None \<Rightarrow> weight
         | Some (n, a, artistId) \<Rightarrow>
             if artistIHearTooMuch \<and> (case artistId of None \<Rightarrow> False | Some i \<Rightarrow> i \<in> artistTooMuch)
             then (let artistCount = artistCount_loop tooMuchCounts artistId allInfo 0 in
                   if artistCount \<ge> 6 then weight - 3 * weightModifier
                   else if artistCount \<ge> 3 then weight - 2 * weightModifier
                   else weight)
             else weight)"








section \<open>The curation passes\<close>

text \<open>
  The configuration and the tables that \<open>main\<close> builds before the two passes, which
  \<open>SpotifyRadio.__init__\<close> copies into the radio object: \<open>numArtists\<close> is
  \<open>numberOfRadioArtists\<close> and \<open>removeByWeight\<close> is \<open>removeRadioSongsByWeight\<close>. The two counts
  are natural numbers. \<open>artistBlacklistNames\<close> lists the names of the set in the order in
  which the loops visit them.
\<close>

record env =
  numArtists :: nat
  radioArtistSongs :: nat
  removeByWeight :: bool
  excludedWords :: "string list"
  artistBlacklist :: bool
  artistIHearTooMuch :: bool
  weightModifier :: real
  topPositions :: "string \<rightharpoonup> nat"
  tooMuchCounts :: "string \<rightharpoonup> nat"
  artistTooMuch :: "string set"
  artistBlacklistNames :: "string list"

text \<open>
  The module \<open>random\<close>, as functions of the state \<open>'g\<close> of the generator:
  \<open>random.random()\<close> and \<open>random.sample(population, k)\<close>.
\<close>

record 'g random_source =
  random_random :: "'g \<Rightarrow> real \<times> 'g"
  random_sample :: "string list \<Rightarrow> nat \<Rightarrow> 'g \<Rightarrow> string list \<times> 'g"

subsection \<open>generateRadio\<close>

text \<open>
  The loop over the resolved tracks of the master playlist that builds \<open>artistMap\<close> and
  \<open>artistNames\<close>; a track whose artist id is \<open>None\<close> or empty is passed over.
\<close>

fun artistMap_loop ::
  "(string \<times> track_info) list \<Rightarrow> (string \<times> string list) list \<Rightarrow> (string \<times> string) list \<Rightarrow>
   (string \<times> string list) list \<times> (string \<times> string) list" where
  "artistMap_loop [] artistMap artistNames = (artistMap, artistNames)"
| "artistMap_loop ((tid, (n, artistName, artistId)) # rest) artistMap artistNames =
     (case artistId of
        None \<Rightarrow> artistMap_loop rest artistMap artistNames
      | Some a \<Rightarrow>
          if a = [] then artistMap_loop rest artistMap artistNames
          else artistMap_loop rest
                 (AList.update a ((case map_of artistMap a of None \<Rightarrow> [] | Some l \<Rightarrow> l) @ [tid])
                    artistMap)
                 (AList.update a artistName artistNames))"

text \<open>
  The loop over the top tracks of one artist, each an id and a title, that builds
  \<open>eligibleSongs\<close>.
\<close>

fun eligibleSongs_loop ::
  "'g random_source \<Rightarrow> env \<Rightarrow> (string \<times> string) list \<Rightarrow> string list \<Rightarrow> 'g \<Rightarrow> string list \<times> 'g"
  where
  "eligibleSongs_loop R E [] eligibleSongs g = (eligibleSongs, g)"
| "eligibleSongs_loop R E ((tid, title) # rest) eligibleSongs g =
     (if isTitleExcluded title (excludedWords E) then eligibleSongs_loop R E rest eligibleSongs g
      else if removeByWeight E then
        (let weight = radio_weight (tooMuchCounts E) (topPositions E) (weightModifier E) tid in
         case random_random R g of
           (draw, g') \<Rightarrow>
             if draw \<ge> weight / 10 then eligibleSongs_loop R E rest eligibleSongs g'
             else eligibleSongs_loop R E rest (eligibleSongs @ [tid]) g')
      else eligibleSongs_loop R E rest (eligibleSongs @ [tid]) g)"

text \<open>The selection among the eligible songs of one artist.\<close>

definition select_songs ::
  "'g random_source \<Rightarrow> env \<Rightarrow> string list \<Rightarrow> 'g \<Rightarrow> string list \<times> 'g" where
  "select_songs R E eligibleSongs g =
     (if eligibleSongs \<noteq> [] then
        (let numToSelect = min (radioArtistSongs E) (length eligibleSongs) in
         if numToSelect \<ge> length eligibleSongs then (eligibleSongs, g)
         else random_sample R eligibleSongs numToSelect g)
      else ([], g))"

text \<open>
  The loop over the chosen artists. \<open>allTopTracks\<close> is what \<open>getArtistsTopTracks\<close> has
  returned. \<open>artistNames[artistId]\<close> raises \<open>KeyError\<close> for an id that is not in the
  dictionary; the result is \<open>None\<close> then.
\<close>

fun artist_loop ::
  "'g random_source \<Rightarrow> env \<Rightarrow> (string \<rightharpoonup> string) \<Rightarrow> (string \<rightharpoonup> (string \<times> string) list) \<Rightarrow>
   string list \<Rightarrow> string list \<Rightarrow> 'g \<Rightarrow> (string list \<times> 'g) option" where
  "artist_loop R E artistNames allTopTracks [] radioTracks g = Some (radioTracks, g)"
| "artist_loop R E artistNames allTopTracks (artistId # rest) radioTracks g =
     (case artistNames artistId of
        None \<Rightarrow> None
      | Some artistName \<Rightarrow>
          if isBlacklisted (artistBlacklist E) (artistBlacklistNames E) artistName
          then artist_loop R E artistNames allTopTracks rest radioTracks g
          else
            (let topResults = (case allTopTracks artistId of None \<Rightarrow> [] | Some ts \<Rightarrow> ts) in
             case eligibleSongs_loop R E topResults [] g of
               (eligibleSongs, g1) \<Rightarrow>
                 (case select_songs R E eligibleSongs g1 of
                    (selectedSongs, g2) \<Rightarrow>
                      artist_loop R E artistNames allTopTracks rest
                        (radioTracks @ selectedSongs) g2)))"

text \<open>The artists that \<open>generateRadio\<close> chooses from the resolved master playlist.\<close>

definition chosen_artists ::
  "'g random_source \<Rightarrow> env \<Rightarrow> (string \<times> track_info) list \<Rightarrow> 'g \<Rightarrow> string list \<times> 'g" where
  "chosen_artists R E masterInfo g =
     (case artistMap_loop masterInfo [] [] of
        (artistMap, artistNames) \<Rightarrow>
          random_sample R (map fst artistMap) (min (numArtists E) (length artistMap)) g)"

text \<open>
  The tracks that \<open>generateRadio\<close> collects from the chosen artists (the tracks of Discover
  Weekly, when they are included, come before them, and the whole list is shuffled at the
  end).
\<close>

definition generateRadio_tracks ::
  "'g random_source \<Rightarrow> env \<Rightarrow> (string \<times> track_info) list \<Rightarrow>
   (string \<rightharpoonup> (string \<times> string) list) \<Rightarrow> string list \<Rightarrow> 'g \<Rightarrow> (string list \<times> 'g) option" where
  "generateRadio_tracks R E masterInfo allTopTracks radioTracks g =
     (case artistMap_loop masterInfo [] [] of
        (artistMap, artistNames) \<Rightarrow>
          (case chosen_artists R E masterInfo g of
             (chosen, g1) \<Rightarrow>
               artist_loop R E (map_of artistNames) allTopTracks chosen radioTracks g1))"

subsection \<open>The master pass of main\<close>

text \<open>
  \<open>trackMap\<close>, the dictionary comprehension over \<open>allInfo.items()\<close>: a later track with the
  same key replaces the entry of an earlier one, in its place.
\<close>

fun trackMap_loop ::
  "(string \<times> track_info) list \<Rightarrow> (string \<times> (string \<times> string \<times> string)) list \<Rightarrow>
   (string \<times> (string \<times> string \<times> string)) list" where
  "trackMap_loop [] trackMap = trackMap"
| "trackMap_loop ((tid, (n, a, i)) # rest) trackMap =
     trackMap_loop rest (AList.update (n @ '' - '' @ a) (tid, n, a) trackMap)"

definition trackMap_of ::
  "(string \<times> track_info) list \<Rightarrow> (string \<times> (string \<times> string \<times> string)) list" where
  "trackMap_of allInfo = trackMap_loop allInfo []"

fun master_loop ::
  "'g random_source \<Rightarrow> env \<Rightarrow> (string \<times> track_info) list \<Rightarrow>
   (string \<times> (string \<times> string \<times> string)) list \<Rightarrow> string list \<Rightarrow> 'g \<Rightarrow> string list \<times> 'g" where
  "master_loop R E allInfo [] selected g = (selected, g)"
| "master_loop R E allInfo ((key, (tid, name, artist)) # rest) selected g =
     (if isBlacklisted (artistBlacklist E) (artistBlacklistNames E) artist
      then master_loop R E allInfo rest selected g
      else
        (let weight = master_weight (artistIHearTooMuch E) allInfo (artistTooMuch E)
                        (tooMuchCounts E) (topPositions E) (weightModifier E) tid in
         case random_random R g of
           (draw, g') \<Rightarrow>
             (let included = draw < weight / 10 in
              master_loop R E allInfo rest (if included then selected @ [tid] else selected) g')))"

definition master_selected ::
  "'g random_source \<Rightarrow> env \<Rightarrow> (string \<times> track_info) list \<Rightarrow> 'g \<Rightarrow> string list \<times> 'g" where
  "master_selected R E allInfo g = master_loop R E allInfo (trackMap_of allInfo) [] g"

text \<open>
  A generator to run the model with: its state is the list of the draws still to come
  (0 when the list is used up), and a sample is the first \<open>k\<close> elements of the population.
\<close>

definition scripted :: "(real list) random_source" where
  "scripted =
     \<lparr>random_random = (\<lambda>g. case g of [] \<Rightarrow> (0, []) | d # ds \<Rightarrow> (d, ds)),
      random_sample = (\<lambda>population k g. (take k population, g))\<rparr>"

definition env0 :: env where
  "env0 =
     \<lparr>numArtists = 5, radioArtistSongs = 10, removeByWeight = True, excludedWords = [],
      artistBlacklist = False, artistIHearTooMuch = False, weightModifier = 1,
      topPositions = Map.empty, tooMuchCounts = Map.empty, artistTooMuch = {},
      artistBlacklistNames = []\<rparr>"

text \<open>
  An entry of \<open>trackMap\<close> is well formed for \<open>allInfo\<close> when its key is the title, the
  string \<open>" - "\<close> and the artist name, and its track, title and artist name are those of an
  item of \<open>allInfo\<close>. A dictionary is well keyed when its keys are distinct and its entries
  well formed.
\<close>

definition entry_ok :: "(string \<times> track_info) list \<Rightarrow> string \<times> (string \<times> string \<times> string) \<Rightarrow> bool" where
  "entry_ok src e =
     (case e of (key, (tid, n, a)) \<Rightarrow>
        key = n @ '' - '' @ a \<and> list_ex (\<lambda>(tid', (n', a', i)). tid' = tid \<and> n' = n \<and> a' = a) src)"

definition keyed :: "(string \<times> track_info) list \<Rightarrow> (string \<times> (string \<times> string \<times> string)) list \<Rightarrow> bool" where
  "keyed src tm = (distinct (map fst tm) \<and> list_all (entry_ok src) tm)"


section \<open>Paginated fetches\<close>

text \<open>
  A page of a listing: its items and the continuation (\<open>results["next"]\<close>), when there is
  one. Of an item of a track listing only the track id matters: \<open>None\<close> stands for an item
  with no track or a track with no id. An item adds its id to \<open>trackIds\<close> when the id is
  there and not empty.
\<close>

record 'c page =
  items :: "string option list"
  next_cursor :: "'c option"

fun collect_ids :: "string option list \<Rightarrow> string list \<Rightarrow> string list" where
  "collect_ids [] trackIds = trackIds"
| "collect_ids (item # rest) trackIds =
     (case item of
        None \<Rightarrow> collect_ids rest trackIds
      | Some tid \<Rightarrow>
          if tid \<noteq> [] then collect_ids rest (trackIds @ [tid]) else collect_ids rest trackIds)"

text \<open>
  The operations of the Spotify client that the fetches use, each a remote operation:
  \<open>playlist_items(playlist_id, limit)\<close>, \<open>next(results)\<close> on the continuation of a page,
  and \<open>current_user_saved_tracks(limit, offset)\<close>.
\<close>

record ('w, 'c) listing_client =
  playlist_items :: "string \<Rightarrow> nat \<Rightarrow> ('w, 'c page) remote_op"
  client_next :: "'c \<Rightarrow> ('w, 'c page) remote_op"
  current_user_saved_tracks :: "nat \<Rightarrow> nat \<Rightarrow> ('w, 'c page) remote_op"

text \<open>
  \<open>getPlaylistTracks\<close>. The loop follows the continuations for as long as the service
  sends one, so it need not end: the result is \<open>None\<close> when it does not. An exception
  of \<open>_withRetry\<close> ends the fetch with that exception. \<open>next(results)\<close> is only called
  on a page that has a continuation and answers with a page.
\<close>

partial_function (option) getPlaylistTracks_loop ::
  "('w, 'c) listing_client \<Rightarrow> 'c page \<Rightarrow> string list \<Rightarrow> 'w conn \<Rightarrow>
   ((exn + string list) \<times> 'w conn) option" where
  "getPlaylistTracks_loop cl results trackIds c =
     (case next_cursor results of
        None \<Rightarrow> Some (Inr (collect_ids (items results) trackIds), c)
      | Some cur \<Rightarrow>
          (case withRetry (client_next cl cur) c of
             (Inl e, c') \<Rightarrow> Some (Inl e, c')
           | (Inr results', c') \<Rightarrow>
               getPlaylistTracks_loop cl results' (collect_ids (items results) trackIds) c'))"

definition getPlaylistTracks ::
  "('w, 'c) listing_client \<Rightarrow> string \<Rightarrow> 'w conn \<Rightarrow> ((exn + string list) \<times> 'w conn) option" where
  "getPlaylistTracks cl playlistId c =
     (case withRetry (playlist_items cl playlistId 100) c of
        (Inl e, c') \<Rightarrow> Some (Inl e, c')
      | (Inr results, c') \<Rightarrow> getPlaylistTracks_loop cl results [] c')"

text \<open>\<open>getLikedTracks\<close>: pages of 50 from a growing offset, until a page has no items.\<close>

partial_function (option) getLikedTracks_loop ::
  "('w, 'c) listing_client \<Rightarrow> nat \<Rightarrow> string list \<Rightarrow> 'w conn \<Rightarrow>
   ((exn + string list) \<times> 'w conn) option" where
  "getLikedTracks_loop cl offset trackIds c =
     (case withRetry (current_user_saved_tracks cl 50 offset) c of
        (Inl e, c') \<Rightarrow> Some (Inl e, c')
      | (Inr results, c') \<Rightarrow>
          if items results = [] then Some (Inr trackIds, c')
          else getLikedTracks_loop cl (offset + length (items results))
                 (collect_ids (items results) trackIds) c')"

definition getLikedTracks ::
  "('w, 'c) listing_client \<Rightarrow> 'w conn \<Rightarrow> ((exn + string list) \<times> 'w conn) option" where
  "getLikedTracks cl c = getLikedTracks_loop cl 0 [] c"

text \<open>
  A service that holds the items \<open>xs\<close> and never fails: a request for \<open>limit\<close> items from
  \<open>offset\<close> gets the items there are, with a continuation (the next offset and the same
  limit) exactly when items remain after them. The state of the service is the number of
  page requests it has answered.
\<close>

definition page_at :: "string option list \<Rightarrow> nat \<Rightarrow> nat \<Rightarrow> (nat \<times> nat) page" where
  "page_at xs limit offset =
     \<lparr>items = take limit (drop offset xs),
      next_cursor = (if offset + limit < length xs then Some (offset + limit, limit) else None)\<rparr>"

definition paged_service :: "string option list \<Rightarrow> (nat, nat \<times> nat) listing_client" where
  "paged_service xs =
     \<lparr>playlist_items = (\<lambda>playlistId limit w. (Returns (page_at xs limit 0), Suc w)),
      client_next = (\<lambda>cur w. (Returns (page_at xs (snd cur) (fst cur)), Suc w)),
      current_user_saved_tracks = (\<lambda>limit offset w. (Returns (page_at xs limit offset), Suc w))\<rparr>"

text \<open>The number of pages of size \<open>p\<close> that \<open>n\<close> items fill, the last one possibly in part.\<close>

definition pages :: "nat \<Rightarrow> nat \<Rightarrow> nat" where
  "pages n p = (n + p - 1) div p"

section \<open>Bulk track details: getTracksInfo\<close>

text \<open>
  An element of the list handed to \<open>getTracksInfo\<close>: \<open>None\<close>, a string, or a value of
  another type. The valid ids are the strings that are not empty.
\<close>

datatype raw_id = IdNone | IdStr string | IdOther

fun valid_id :: "raw_id \<Rightarrow> string option" where
  "valid_id (IdStr tid) = (if tid \<noteq> [] then Some tid else None)"
| "valid_id r = None"

definition validTrackIds :: "raw_id list \<Rightarrow> string list" where
  "validTrackIds trackIds = List.map_filter valid_id trackIds"

text \<open>
  A track object of the catalogue: its id, its name, and the name and id of each of its
  artists. The answer to \<open>tracks(batch)\<close> has one entry for each id asked for, \<open>None\<close>
  where the catalogue has no such track.
\<close>

record track_obj =
  track_id :: string
  track_name :: string
  track_artists :: "(string \<times> string option) list"

definition batchSize :: nat where
  "batchSize = 50"

text \<open>The loop over the tracks of one answer, which fills \<open>info\<close>.\<close>

fun process_tracks ::
  "track_obj option list \<Rightarrow> (string \<times> track_info) list \<Rightarrow> (string \<times> track_info) list" where
  "process_tracks [] info = info"
| "process_tracks (t # rest) info =
     (case t of
        None \<Rightarrow> process_tracks rest info
      | Some tr \<Rightarrow>
          (case track_artists tr of
             [] \<Rightarrow>
               process_tracks rest
                 (AList.update (track_id tr) (track_name tr, ''Unknown'', None) info)
           | artist # others \<Rightarrow>
               process_tracks rest
                 (AList.update (track_id tr) (track_name tr, fst artist, snd artist) info)))"

text \<open>
  The loop over the batches: \<open>i\<close> runs over \<open>range(0, len(validTrackIds), batchSize)\<close>. An
  exception of \<open>_withRetry\<close> is caught and the loop goes on with the next batch.
\<close>

function getTracksInfo_loop ::
  "(string list \<Rightarrow> ('w, track_obj option list) remote_op) \<Rightarrow> string list \<Rightarrow> nat \<Rightarrow>
   (string \<times> track_info) list \<Rightarrow> 'w conn \<Rightarrow> (string \<times> track_info) list \<times> 'w conn" where
  "getTracksInfo_loop tracks ids i info c =
     (if i < length ids then
        (case withRetry (tracks (take batchSize (drop i ids))) c of
           (Inr results, c') \<Rightarrow>
             getTracksInfo_loop tracks ids (i + batchSize) (process_tracks results info) c'
         | (Inl e, c') \<Rightarrow> getTracksInfo_loop tracks ids (i + batchSize) info c')
      else (info, c))"
  by pat_completeness auto
termination
  by (relation "measure (\<lambda>(tracks, ids, i, info, c). length ids - i)")
    (auto simp: batchSize_def)

definition getTracksInfo ::
  "(string list \<Rightarrow> ('w, track_obj option list) remote_op) \<Rightarrow> raw_id list \<Rightarrow> 'w conn \<Rightarrow>
   (string \<times> track_info) list \<times> 'w conn" where
  "getTracksInfo tracks trackIds c =
     (if length (validTrackIds trackIds) = 0 then ([], c)
      else getTracksInfo_loop tracks (validTrackIds trackIds) 0 [] c)"

text \<open>
  The batches that the loop sends from index \<open>i\<close> on, and the loop over a list of batches.
\<close>

function batches :: "string list \<Rightarrow> nat \<Rightarrow> string list list" where
  "batches ids i =
     (if i < length ids then take batchSize (drop i ids) # batches ids (i + batchSize) else [])"
  by pat_completeness auto
termination
  by (relation "measure (\<lambda>(ids, i). length ids - i)") (auto simp: batchSize_def)

fun run_batches ::
  "(string list \<Rightarrow> ('w, track_obj option list) remote_op) \<Rightarrow> string list list \<Rightarrow>
   (string \<times> track_info) list \<Rightarrow> 'w conn \<Rightarrow> (string \<times> track_info) list \<times> 'w conn" where
  "run_batches tracks [] info c = (info, c)"
| "run_batches tracks (batch # rest) info c =
     (case withRetry (tracks batch) c of
        (Inr results, c') \<Rightarrow> run_batches tracks rest (process_tracks results info) c'
      | (Inl e, c') \<Rightarrow> run_batches tracks rest info c')"

text \<open>The metadata that \<open>getTracksInfo\<close> records for a track object.\<close>

definition meta_of :: "track_obj \<Rightarrow> track_info" where
  "meta_of tr =
     (case track_artists tr of
        [] \<Rightarrow> (track_name tr, ''Unknown'', None)
      | artist # others \<Rightarrow> (track_name tr, fst artist, snd artist))"

text \<open>
  A catalogue to run the model with: every id is the id of a track with that name and no
  artist, and the request for a batch fails, with status 404 on every attempt, when the
  batch is one of \<open>failing\<close>.
\<close>

definition plain_track :: "string \<Rightarrow> track_obj option" where
  "plain_track tid = Some \<lparr>track_id = tid, track_name = tid, track_artists = []\<rparr>"

definition catalogue_tracks ::
  "string list list \<Rightarrow> string list \<Rightarrow> (unit, track_obj option list) remote_op" where
  "catalogue_tracks failing batch w =
     (if batch \<in> set failing then (Raises (SpotifyException 404 None ''not found''), w)
      else (Returns (map plain_track batch), w))"

text \<open>
  \<open>info'\<close> extends \<open>info\<close> by the tracks \<open>S\<close> of the catalogue \<open>cat\<close>: its keys are those
  of \<open>info\<close> and \<open>S\<close>, each id of \<open>S\<close> has the metadata of its track, every other id
  has what it had, and distinct keys stay distinct.
\<close>

definition extends_by ::
  "(string \<Rightarrow> track_obj option) \<Rightarrow> (string \<times> track_info) list \<Rightarrow>
   (string \<times> track_info) list \<Rightarrow> string set \<Rightarrow> bool" where
  "extends_by cat info info' S \<longleftrightarrow>
     (distinct (map fst info) \<longrightarrow> distinct (map fst info')) \<and>
     set (map fst info') = set (map fst info) \<union> S \<and>
     (\<forall>tid. map_of info' tid
        = (if tid \<in> S then map_option meta_of (cat tid) else map_of info tid))"

text \<open>Fifty-one different ids, to run the model on two batches.\<close>

definition many_ids :: "string list" where
  "many_ids = map (\<lambda>n. replicate n (CHR ''a'')) [1..<52]"

section \<open>Properties of the retry wrapper\<close>

lemma on_failure_keeps:
  "on_failure e k c = (a, c') \<Longrightarrow> apiCallCount c' = apiCallCount c \<and> remote c' = remote c"
  by (cases e) (auto simp: sleep_def split: if_splits)

lemma on_failure_action:
  "fst (on_failure e k c) = (if reraised e \<and> k \<ge> maxRetries then Reraise else Retry)"
  by (cases e) auto

lemma withRetry_loop_count:
  "apiCallCount (snd (withRetry_loop func k c)) =
     apiCallCount c + (case fst (withRetry_loop func k c) of Inl e \<Rightarrow> 0 | Inr r \<Rightarrow> 1)"
proof (induction func k c rule: withRetry_loop.induct)
  case (1 func retryCount c)
  show ?case
  proof (cases "retryCount < maxRetries")
    case False
    then show ?thesis by simp
  next
    case True
    obtain r w' where cw: "call_with_timeout func 60 (remote c) = (r, w')"
      by (cases "call_with_timeout func 60 (remote c)")
    show ?thesis
    proof (cases r)
      case (Inr res)
      with True cw show ?thesis by simp
    next
      case (Inl e)
      obtain a c' where of1: "on_failure e (retryCount + 1) (c\<lparr>remote := w'\<rparr>) = (a, c')"
        by (cases "on_failure e (retryCount + 1) (c\<lparr>remote := w'\<rparr>)")
      from on_failure_keeps[OF of1] have k: "apiCallCount c' = apiCallCount c" by simp
      show ?thesis
      proof (cases a)
        case Reraise
        with True cw Inl of1 k show ?thesis by simp
      next
        case Retry
        have "apiCallCount (snd (withRetry_loop func (retryCount + 1) c')) =
           apiCallCount c' +
             (case fst (withRetry_loop func (retryCount + 1) c') of Inl e \<Rightarrow> 0 | Inr r \<Rightarrow> 1)"
          using "1.IH"[OF True cw[symmetric] Inl of1[symmetric] Retry] .
        moreover have "withRetry_loop func retryCount c = withRetry_loop func (retryCount + 1) c'"
          using True cw Inl of1 Retry by simp
        ultimately show ?thesis using k by simp
      qed
    qed
  qed
qed

text \<open>When all the remaining runs fail, the outcome is decided by the last failure.\<close>

lemma withRetry_loop_exhausted:
  "k < maxRetries \<Longrightarrow> length es = maxRetries - k \<Longrightarrow>
   run_attempts func (maxRetries - k) (remote c) = map Inl es \<Longrightarrow>
   fst (withRetry_loop func k c) =
     Inl (if reraised (last es) then last es else FailedAfter maxRetries)"
proof (induction func k c arbitrary: es rule: withRetry_loop.induct)
  case (1 func retryCount c)
  from "1.prems" obtain n where n: "maxRetries - retryCount = Suc n"
    by (cases "maxRetries - retryCount") auto
  obtain r w' where cw: "call_with_timeout func 60 (remote c) = (r, w')"
    by (cases "call_with_timeout func 60 (remote c)")
  from "1.prems" n cw obtain e es' where es: "es = e # es'" and r: "r = Inl e"
    and rest: "run_attempts func n w' = map Inl es'"
    by (cases es) auto
  obtain a c' where of1: "on_failure e (retryCount + 1) (c\<lparr>remote := w'\<rparr>) = (a, c')"
    by (cases "on_failure e (retryCount + 1) (c\<lparr>remote := w'\<rparr>)")
  have rem: "remote c' = w'"
    using on_failure_keeps[OF of1] by simp
  have act: "a = (if reraised e \<and> retryCount + 1 \<ge> maxRetries then Reraise else Retry)"
    using on_failure_action[of e "retryCount + 1" "c\<lparr>remote := w'\<rparr>"] of1 by simp
  show ?case
  proof (cases "retryCount + 1 < maxRetries")
    case True
    then have aR: "a = Retry" using act by simp
    have len: "length es' = maxRetries - (retryCount + 1)" using "1.prems" es by simp
    have n': "n = maxRetries - (retryCount + 1)" using n by simp
    have ne: "es' \<noteq> []" using len True by auto
    have "fst (withRetry_loop func (retryCount + 1) c') =
        Inl (if reraised (last es') then last es' else FailedAfter maxRetries)"
      using "1.IH"[OF "1.prems"(1) cw[symmetric] r of1[symmetric] aR True len] rest rem n'
      by simp
    moreover have "withRetry_loop func retryCount c = withRetry_loop func (retryCount + 1) c'"
      using "1.prems"(1) cw r of1 aR by simp
    ultimately show ?thesis using es ne by simp
  next
    case False
    then have k: "retryCount + 1 = maxRetries" using "1.prems"(1) by simp
    then have "n = 0" using n by simp
    then have es': "es' = []" using "1.prems" es n by simp
    show ?thesis
    proof (cases "reraised e")
      case True
      then have "a = Reraise" using act k by simp
      then show ?thesis using "1.prems"(1) cw r of1 True es es' by simp
    next
      case False
      then have aR: "a = Retry" using act by simp
      have step: "withRetry_loop func retryCount c = withRetry_loop func (retryCount + 1) c'"
        using "1.prems"(1) cw r of1 aR by simp
      have "fst (withRetry_loop func (retryCount + 1) c') = Inl (FailedAfter maxRetries)"
        using k by simp
      then show ?thesis using step False es es' by simp
    qed
  qed
qed

text \<open>A run that returns ends the logical call with that result, whatever failed before.\<close>

lemma withRetry_loop_success:
  "k < maxRetries \<Longrightarrow>
   \<exists>r \<in> set (run_attempts func (maxRetries - k) (remote c)). \<not> isl r \<Longrightarrow>
   \<not> isl (fst (withRetry_loop func k c))"
proof (induction func k c rule: withRetry_loop.induct)
  case (1 func retryCount c)
  from "1.prems" obtain n where n: "maxRetries - retryCount = Suc n"
    by (cases "maxRetries - retryCount") auto
  obtain r w' where cw: "call_with_timeout func 60 (remote c) = (r, w')"
    by (cases "call_with_timeout func 60 (remote c)")
  show ?case
  proof (cases r)
    case (Inr res)
    with "1.prems"(1) cw show ?thesis by simp
  next
    case (Inl e)
    obtain a c' where of1: "on_failure e (retryCount + 1) (c\<lparr>remote := w'\<rparr>) = (a, c')"
      by (cases "on_failure e (retryCount + 1) (c\<lparr>remote := w'\<rparr>)")
    have rem: "remote c' = w'"
      using on_failure_keeps[OF of1] by simp
    from "1.prems"(2) n cw Inl have later: "\<exists>r \<in> set (run_attempts func n w'). \<not> isl r"
      by simp
    then have "n \<noteq> 0" by (cases n) auto
    then have lt: "retryCount + 1 < maxRetries" using n by simp
    then have aR: "a = Retry"
      using on_failure_action[of e "retryCount + 1" "c\<lparr>remote := w'\<rparr>"] of1 by simp
    have n': "n = maxRetries - (retryCount + 1)" using n by simp
    have "\<not> isl (fst (withRetry_loop func (retryCount + 1) c'))"
      using "1.IH"[OF "1.prems"(1) cw[symmetric] Inl of1[symmetric] aR lt] later rem n' by simp
    moreover have "withRetry_loop func retryCount c = withRetry_loop func (retryCount + 1) c'"
      using "1.prems"(1) cw Inl of1 aR by simp
    ultimately show ?thesis by simp
  qed
qed


text \<open>
  Claim C3. As stated (after five failed attempts of any classification the wrapper fails
  with an outcome that carries the last underlying error) the claim does not hold: when
  the operation is rate limited on all five attempts, the wrapper sleeps five times and
  raises \<open>Exception("Failed after 5 attempts")\<close>, which carries no underlying error.
\<close>

theorem C3_counterexample:
  "run_attempts (always_raises (SpotifyException 429 (Some 2) ''rate limited'')
       :: (unit, unit) remote_op) 5 ()
     = replicate 5 (Inl (SpotifyException 429 (Some 2) ''rate limited''))
   \<and> fst (withRetry (always_raises (SpotifyException 429 (Some 2) ''rate limited'')
       :: (unit, unit) remote_op) (conn0 ())) = Inl (FailedAfter 5)
   \<and> carried (FailedAfter 5) \<noteq> Some (SpotifyException 429 (Some 2) ''rate limited'')"
  by (simp add: withRetry_def always_raises_def call_with_timeout_def conn0_def
      maxRetries_def sleep_def eval_nat_numeral)

text \<open>
  Claim C3, amended. When all five attempts of a logical call fail, the outcome depends on
  the fifth failure: a timeout, a \<open>SpotifyException\<close> with a status that is none of 429,
  503 and 500 or above, or any other exception is raised again as it is (the outcome is
  the last underlying error); after a 429, a 503 or another status of 500 or above the
  wrapper raises \<open>Exception("Failed after 5 attempts")\<close> instead.
\<close>

theorem C3_retries_exhausted:
  assumes "run_attempts func 5 (remote c) = [Inl e1, Inl e2, Inl e3, Inl e4, Inl e5]"
  shows "fst (withRetry func c) = Inl (if reraised e5 then e5 else FailedAfter 5)"
proof -
  have "run_attempts func (maxRetries - 0) (remote c) = map Inl [e1, e2, e3, e4, e5]"
    using assms by (simp add: maxRetries_def)
  from withRetry_loop_exhausted[OF _ _ this] show ?thesis
    by (simp add: withRetry_def maxRetries_def)
qed

theorem C3_retries_exhausted_witness:
  "run_attempts (always_raises (OtherError ''boom'') :: (unit, unit) remote_op) 5 ()
     = replicate 5 (Inl (OtherError ''boom''))
   \<and> fst (withRetry (always_raises (OtherError ''boom'') :: (unit, unit) remote_op) (conn0 ()))
     = Inl (OtherError ''boom'')"
proof -
  have h: "run_attempts (always_raises (OtherError ''boom'') :: (unit, unit) remote_op) 5
        (remote (conn0 ()))
      = [Inl (OtherError ''boom''), Inl (OtherError ''boom''), Inl (OtherError ''boom''),
         Inl (OtherError ''boom''), Inl (OtherError ''boom'')]"
    by (simp add: always_raises_def call_with_timeout_def conn0_def eval_nat_numeral)
  from C3_retries_exhausted[OF h] h show ?thesis
    by (simp add: conn0_def eval_nat_numeral)
qed

text \<open>
  Claim C4. A logical call through the wrapper adds exactly one to \<open>apiCallCount\<close> when it
  returns a result and nothing when it fails; it returns a result as soon as one of its
  (at most five) attempts succeeds, and when all five attempts fail the counter is unchanged.
\<close>

theorem C4_api_call_count:
  "apiCallCount (snd (withRetry func c)) =
     apiCallCount c + (case fst (withRetry func c) of Inl e \<Rightarrow> 0 | Inr r \<Rightarrow> 1)
   \<and> ((\<exists>r \<in> set (run_attempts func 5 (remote c)). \<not> isl r) \<longrightarrow>
        \<not> isl (fst (withRetry func c)) \<and>
        apiCallCount (snd (withRetry func c)) = apiCallCount c + 1)
   \<and> ((\<forall>r \<in> set (run_attempts func 5 (remote c)). isl r) \<longrightarrow>
        isl (fst (withRetry func c)) \<and>
        apiCallCount (snd (withRetry func c)) = apiCallCount c)"
proof -
  have count: "apiCallCount (snd (withRetry func c)) =
     apiCallCount c + (case fst (withRetry func c) of Inl e \<Rightarrow> 0 | Inr r \<Rightarrow> 1)"
    unfolding withRetry_def by (rule withRetry_loop_count)
  have ok: "\<not> isl (fst (withRetry func c))"
    if "\<exists>r \<in> set (run_attempts func 5 (remote c)). \<not> isl r"
    using withRetry_loop_success[of 0 func c] that by (simp add: withRetry_def maxRetries_def)
  have bad: "isl (fst (withRetry func c))"
    if all: "\<forall>r \<in> set (run_attempts func 5 (remote c)). isl r"
  proof -
    have len: "length (run_attempts func n w) = n" for n w
      by (induction n arbitrary: w) (auto split: prod.splits)
    define es where "es = map projl (run_attempts func 5 (remote c))"
    have "run_attempts func 5 (remote c) = map Inl es"
      unfolding es_def using all by (auto simp: map_idI)
    moreover have "length es = 5" by (simp add: es_def len)
    ultimately show ?thesis
      using withRetry_loop_exhausted[of 0 es func c] by (simp add: withRetry_def maxRetries_def)
  qed
  from count ok bad show ?thesis
    by (auto split: sum.splits)
qed

theorem C4_api_call_count_witness:
  "apiCallCount (snd (withRetry (fails_then_returns (OtherError ''boom'') (7::nat)) (conn0 2))) = 1
   \<and> apiCallCount (snd (withRetry (fails_then_returns (OtherError ''boom'') (7::nat)) (conn0 5))) = 0"
proof -
  have a: "\<exists>r \<in> set (run_attempts (fails_then_returns (OtherError ''boom'') (7::nat)) 5
        (remote (conn0 2))). \<not> isl r"
    by (simp add: fails_then_returns_def call_with_timeout_def conn0_def eval_nat_numeral)
  have b: "\<forall>r \<in> set (run_attempts (fails_then_returns (OtherError ''boom'') (7::nat)) 5
        (remote (conn0 5))). isl r"
    by (simp add: fails_then_returns_def call_with_timeout_def conn0_def eval_nat_numeral)
  from C4_api_call_count[of "fails_then_returns (OtherError ''boom'') (7::nat)" "conn0 2"]
       C4_api_call_count[of "fails_then_returns (OtherError ''boom'') (7::nat)" "conn0 5"] a b
  show ?thesis
    by (simp add: conn0_def)
qed

text \<open>
  Claim C7. An attempt that fails with status 429 makes the wrapper sleep once, for the
  \<open>Retry-After\<close> value of the response or for 1 when there is none, and nothing else is
  added to the sleeps; the loop goes on with \<open>retryCount\<close> one higher, so the attempt
  counts towards the limit of five: after a fifth attempt that is rate limited no further
  attempt is made.
\<close>

theorem C7_rate_limited:
  assumes "k < 5"
    and "call_with_timeout func 60 (remote c) = (Inl (SpotifyException 429 hdr m), w')"
  shows "withRetry_loop func k c =
       withRetry_loop func (k + 1)
         (c\<lparr>remote := w', slept := slept c @ [case hdr of None \<Rightarrow> 1 | Some t \<Rightarrow> t]\<rparr>)
     \<and> (k = 4 \<longrightarrow> withRetry_loop func k c =
         (Inl (FailedAfter 5),
          c\<lparr>remote := w', slept := slept c @ [case hdr of None \<Rightarrow> 1 | Some t \<Rightarrow> t]\<rparr>))"
  using assms by (simp add: sleep_def maxRetries_def)

theorem C7_rate_limited_witness:
  "withRetry_loop (fails_then_returns (SpotifyException 429 (Some 2) ''slow down'') (7::nat))
      0 (conn0 1)
    = withRetry_loop (fails_then_returns (SpotifyException 429 (Some 2) ''slow down'') 7)
      1 \<lparr>apiCallCount = 0, slept = [2], remote = 0\<rparr>
   \<and> withRetry (fails_then_returns (SpotifyException 429 (Some 2) ''slow down'') (7::nat))
      (conn0 1) = (Inr 7, \<lparr>apiCallCount = 1, slept = [2], remote = 0\<rparr>)"
proof -
  have h: "call_with_timeout (fails_then_returns (SpotifyException 429 (Some 2) ''slow down'')
        (7::nat)) 60 (remote (conn0 1)) = (Inl (SpotifyException 429 (Some 2) ''slow down''), 0)"
    by (simp add: fails_then_returns_def call_with_timeout_def conn0_def)
  have k: "(0::nat) < 5" by simp
  from C7_rate_limited[OF k h] show ?thesis
    by (simp add: withRetry_def fails_then_returns_def call_with_timeout_def conn0_def
        maxRetries_def)
qed


section \<open>Properties of the curation passes\<close>

subsection \<open>Strings\<close>

lemma lower_char_upper:
  "65 \<le> (of_char c :: nat) \<Longrightarrow> (of_char c :: nat) \<le> 90 \<Longrightarrow>
   of_char (lower_char c) = (of_char c + 32 :: nat)"
proof (cases c)
  case (Char b0 b1 b2 b3 b4 b5 b6 b7)
  assume "65 \<le> (of_char c :: nat)" and "(of_char c :: nat) \<le> 90"
  with Char show ?thesis
    by (cases b0; cases b1; cases b2; cases b3; cases b4; cases b5; cases b6; cases b7) simp_all
qed

lemma lower_char_other:
  "\<not> (65 \<le> (of_char c :: nat) \<and> (of_char c :: nat) \<le> 90) \<Longrightarrow> lower_char c = c"
proof (cases c)
  case (Char b0 b1 b2 b3 b4 b5 b6 b7)
  assume "\<not> (65 \<le> (of_char c :: nat) \<and> (of_char c :: nat) \<le> 90)"
  with Char show ?thesis
    by (cases b0; cases b1; cases b2; cases b3; cases b4; cases b5; cases b6; cases b7) simp_all
qed







lemma master_loop_step:
  assumes "\<not> isBlacklisted (artistBlacklist E) (artistBlacklistNames E) artist"
  shows "\<exists>sel' g'. master_loop R E allInfo ((key, (t, name, artist)) # tm) sel g
             = master_loop R E allInfo tm sel' g'
           \<and> (sel' = sel \<or> sel' = sel @ [t])"
proof -
  obtain draw g1 where d: "random_random R g = (draw, g1)" by (cases "random_random R g")
  define w where "w = master_weight (artistIHearTooMuch E) allInfo (artistTooMuch E)
                        (tooMuchCounts E) (topPositions E) (weightModifier E) t"
  have "master_loop R E allInfo ((key, (t, name, artist)) # tm) sel g
      = master_loop R E allInfo tm (if draw < w / 10 then sel @ [t] else sel) g1"
    using assms d by (simp add: w_def Let_def)
  then show ?thesis by (cases "draw < w / 10") auto
qed

lemma master_loop_origin:
  "tid \<in> set (fst (master_loop R E allInfo tm sel g)) \<Longrightarrow>
   tid \<in> set sel \<or>
   (\<exists>key name artist. (key, (tid, name, artist)) \<in> set tm \<and>
      \<not> isBlacklisted (artistBlacklist E) (artistBlacklistNames E) artist)"
proof (induction tm arbitrary: sel g)
  case Nil
  then show ?case by simp
next
  case (Cons x tm)
  obtain key t name artist where x: "x = (key, (t, name, artist))" by (cases x) auto
  show ?case
  proof (cases "isBlacklisted (artistBlacklist E) (artistBlacklistNames E) artist")
    case True
    with Cons.prems x have "tid \<in> set (fst (master_loop R E allInfo tm sel g))" by simp
    from Cons.IH[OF this] show ?thesis by auto
  next
    case False
    from master_loop_step[OF False, of R allInfo key t name tm sel g] obtain sel' g'
      where step: "master_loop R E allInfo ((key, (t, name, artist)) # tm) sel g
             = master_loop R E allInfo tm sel' g'"
      and sel': "sel' = sel \<or> sel' = sel @ [t]" by blast
    from Cons.prems x step have "tid \<in> set (fst (master_loop R E allInfo tm sel' g'))" by simp
    from Cons.IH[OF this] have
      "tid \<in> set sel' \<or> (\<exists>key name artist. (key, (tid, name, artist)) \<in> set tm \<and>
         \<not> isBlacklisted (artistBlacklist E) (artistBlacklistNames E) artist)" .
    then show ?thesis
    proof
      assume "tid \<in> set sel'"
      with sel' have "tid \<in> set sel \<or> tid = t" by auto
      then show ?thesis
      proof
        assume "tid = t"
        with False x have "(key, (tid, name, artist)) \<in> set (x # tm) \<and>
          \<not> isBlacklisted (artistBlacklist E) (artistBlacklistNames E) artist" by simp
        then show ?thesis by blast
      qed simp
    next
      assume "\<exists>key name artist. (key, (tid, name, artist)) \<in> set tm \<and>
         \<not> isBlacklisted (artistBlacklist E) (artistBlacklistNames E) artist"
      then show ?thesis by auto
    qed
  qed
qed



subsection \<open>Weights\<close>














subsection \<open>The two ends of the weight scale\<close>










subsection \<open>Re-keying by title and artist name\<close>

lemma set_update_subset: "set (AList.update k v al) \<subseteq> insert (k, v) (set al)"
  by (induction al) auto

lemma entry_ok_iff:
  "entry_ok src (key, (tid, n, a)) \<longleftrightarrow> key = n @ '' - '' @ a \<and> (\<exists>i. (tid, (n, a, i)) \<in> set src)"
  by (force simp: entry_ok_def list_ex_iff)

lemma keyed_update:
  assumes "keyed src tm" and "(tid, (n, a, i)) \<in> set src"
  shows "keyed src (AList.update (n @ '' - '' @ a) (tid, n, a) tm)"
proof -
  have d: "distinct (map fst (AList.update (n @ '' - '' @ a) (tid, n, a) tm))"
    using assms(1) by (simp add: keyed_def distinct_update)
  have new: "entry_ok src (n @ '' - '' @ a, (tid, n, a))"
    using assms(2) by (subst entry_ok_iff) blast
  have old: "\<forall>e \<in> set tm. entry_ok src e"
    using assms(1) by (simp add: keyed_def list_all_iff)
  have "entry_ok src e" if "e \<in> set (AList.update (n @ '' - '' @ a) (tid, n, a) tm)" for e
  proof -
    from that set_update_subset[of "n @ '' - '' @ a" "(tid, n, a)" tm]
    have "e = (n @ '' - '' @ a, (tid, n, a)) \<or> e \<in> set tm" by blast
    with new old show ?thesis by blast
  qed
  with d show ?thesis by (simp add: keyed_def list_all_iff)
qed

lemma keyed_trackMap_loop:
  "keyed src tm \<Longrightarrow> set rest \<subseteq> set src \<Longrightarrow> keyed src (trackMap_loop rest tm)"
proof (induction rest arbitrary: tm)
  case Nil
  then show ?case by simp
next
  case (Cons x rest)
  obtain tid n a i where x: "x = (tid, (n, a, i))" by (cases x) auto
  with Cons.prems have "(tid, (n, a, i)) \<in> set src" by simp
  from keyed_update[OF Cons.prems(1) this] Cons.prems(2) Cons.IH x show ?case by simp
qed

lemma keyed_trackMap_of: "keyed allInfo (trackMap_of allInfo)"
  unfolding trackMap_of_def by (rule keyed_trackMap_loop) (simp_all add: keyed_def)

lemma keyed_same_pair:
  assumes "keyed src tm" and "(k1, (t1, n, a)) \<in> set tm" and "(k2, (t2, n, a)) \<in> set tm"
  shows "t1 = t2"
proof -
  from assms have "entry_ok src (k1, (t1, n, a))" "entry_ok src (k2, (t2, n, a))"
    by (simp_all add: keyed_def list_all_iff)
  then have "k1 = n @ '' - '' @ a" "k2 = n @ '' - '' @ a" by (simp_all add: entry_ok_iff)
  with assms have "(k1, (t1, n, a)) \<in> set tm" "(k1, (t2, n, a)) \<in> set tm" by simp_all
  moreover have "distinct (map fst tm)" using assms(1) by (simp add: keyed_def)
  ultimately have "(t1, n, a) = (t2, n, a)" by (rule eq_key_imp_eq_value[rotated])
  then show ?thesis by simp
qed

lemma keyed_tids_distinct:
  assumes "keyed src tm" and "distinct (map fst src)"
  shows "distinct (map (\<lambda>e. fst (snd e)) tm)"
proof -
  have dk: "distinct (map fst tm)" using assms(1) by (simp add: keyed_def)
  then have "distinct tm" by (simp add: distinct_map)
  moreover have "inj_on (\<lambda>e. fst (snd e)) (set tm)"
  proof (rule inj_onI)
    fix x y assume x: "x \<in> set tm" and y: "y \<in> set tm" and eq: "fst (snd x) = fst (snd y)"
    obtain k1 t1 n1 a1 where x': "x = (k1, (t1, n1, a1))" by (cases x) auto
    obtain k2 t2 n2 a2 where y': "y = (k2, (t2, n2, a2))" by (cases y) auto
    from eq x' y' have t: "t1 = t2" by simp
    from assms(1) x x' have "entry_ok src (k1, (t1, n1, a1))"
      by (simp add: keyed_def list_all_iff)
    then obtain i1 where i1: "k1 = n1 @ '' - '' @ a1" "(t1, (n1, a1, i1)) \<in> set src"
      by (auto simp: entry_ok_iff)
    from assms(1) y y' have "entry_ok src (k2, (t2, n2, a2))"
      by (simp add: keyed_def list_all_iff)
    then obtain i2 where i2: "k2 = n2 @ '' - '' @ a2" "(t2, (n2, a2, i2)) \<in> set src"
      by (auto simp: entry_ok_iff)
    from eq_key_imp_eq_value[OF assms(2) i1(2)] i2(2) t have "(n1, a1, i1) = (n2, a2, i2)" by simp
    with i1 i2 have "k1 = k2" by simp
    with eq_key_imp_eq_value[OF dk] x y x' y' show "x = y" by auto
  qed
  ultimately show ?thesis by (simp add: distinct_map)
qed

lemma master_loop_distinct:
  "distinct (sel @ map (\<lambda>e. fst (snd e)) tm) \<Longrightarrow> distinct (fst (master_loop R E allInfo tm sel g))"
proof (induction tm arbitrary: sel g)
  case Nil
  then show ?case by simp
next
  case (Cons x tm)
  obtain key t name artist where x: "x = (key, (t, name, artist))" by (cases x) auto
  show ?case
  proof (cases "isBlacklisted (artistBlacklist E) (artistBlacklistNames E) artist")
    case True
    from Cons.prems x have "distinct (sel @ map (\<lambda>e. fst (snd e)) tm)" by simp
    from Cons.IH[OF this] True x show ?thesis by simp
  next
    case False
    from master_loop_step[OF False, of R allInfo key t name tm sel g] obtain sel' g'
      where step: "master_loop R E allInfo ((key, (t, name, artist)) # tm) sel g
             = master_loop R E allInfo tm sel' g'"
      and sel': "sel' = sel \<or> sel' = sel @ [t]" by blast
    define ys where "ys = map (\<lambda>e. fst (snd e)) tm"
    from Cons.prems x have "distinct (sel @ t # ys)" by (simp add: ys_def)
    with sel' have "distinct (sel' @ ys)" by auto
    then have "distinct (sel' @ map (\<lambda>e. fst (snd e)) tm)" by (simp add: ys_def)
    from Cons.IH[OF this] step x show ?thesis by simp
  qed
qed

lemma master_loop_subset:
  "set (fst (master_loop R E allInfo tm sel g)) \<subseteq> set sel \<union> set (map (\<lambda>e. fst (snd e)) tm)"
proof
  fix tid assume "tid \<in> set (fst (master_loop R E allInfo tm sel g))"
  from master_loop_origin[OF this] show "tid \<in> set sel \<union> set (map (\<lambda>e. fst (snd e)) tm)"
    by force
qed


lemma keyed_pair_once:
  assumes k: "keyed allInfo tm" and d: "distinct (map fst allInfo)"
    and m1: "(t1, (n, a, i1)) \<in> set allInfo" and m2: "(t2, (n, a, i2)) \<in> set allInfo"
    and ne: "t1 \<noteq> t2"
  shows "\<not> (t1 \<in> set (map (\<lambda>e. fst (snd e)) tm) \<and> t2 \<in> set (map (\<lambda>e. fst (snd e)) tm))"
proof
  assume both: "t1 \<in> set (map (\<lambda>e. fst (snd e)) tm) \<and> t2 \<in> set (map (\<lambda>e. fst (snd e)) tm)"
  then obtain k1 n1 a1 where e1: "(k1, (t1, n1, a1)) \<in> set tm" by force
  from both obtain k2 n2 a2 where e2: "(k2, (t2, n2, a2)) \<in> set tm" by force
  from k e1 have "entry_ok allInfo (k1, (t1, n1, a1))" by (simp add: keyed_def list_all_iff)
  then obtain j1 where "(t1, (n1, a1, j1)) \<in> set allInfo" by (auto simp: entry_ok_iff)
  from eq_key_imp_eq_value[OF d this m1] have p1: "n1 = n" "a1 = a" by simp_all
  from k e2 have "entry_ok allInfo (k2, (t2, n2, a2))" by (simp add: keyed_def list_all_iff)
  then obtain j2 where "(t2, (n2, a2, j2)) \<in> set allInfo" by (auto simp: entry_ok_iff)
  from eq_key_imp_eq_value[OF d this m2] have p2: "n2 = n" "a2 = a" by simp_all
  from keyed_same_pair[OF k] e1 e2 p1 p2 have "t1 = t2" by blast
  with ne show False by simp
qed

text \<open>
  Claim C10. \<open>trackMap\<close> has one entry for each key \<open>title - artist name\<close>, and each entry
  is an item of \<open>allInfo\<close> under that key. The master loop runs over these entries, so the
  selected tracks are among the tracks of the entries and no track is selected twice. Of
  two different track ids that \<open>allInfo\<close> gives the same title and the same artist name, at
  most one is the track of an entry, and at most one is selected.
\<close>

theorem C10_rekeyed:
  assumes "distinct (map fst allInfo)"
  shows "distinct (map fst (trackMap_of allInfo))
     \<and> list_all (entry_ok allInfo) (trackMap_of allInfo)
     \<and> set (fst (master_selected R E allInfo g))
          \<subseteq> set (map (\<lambda>e. fst (snd e)) (trackMap_of allInfo))
     \<and> distinct (fst (master_selected R E allInfo g))
     \<and> ((t1, (n, a, i1)) \<in> set allInfo \<and> (t2, (n, a, i2)) \<in> set allInfo \<and> t1 \<noteq> t2 \<longrightarrow>
          \<not> (t1 \<in> set (map (\<lambda>e. fst (snd e)) (trackMap_of allInfo)) \<and>
             t2 \<in> set (map (\<lambda>e. fst (snd e)) (trackMap_of allInfo))) \<and>
          \<not> (t1 \<in> set (fst (master_selected R E allInfo g)) \<and>
             t2 \<in> set (fst (master_selected R E allInfo g))))"
proof -
  have k: "keyed allInfo (trackMap_of allInfo)" by (rule keyed_trackMap_of)
  have sub: "set (fst (master_selected R E allInfo g))
          \<subseteq> set (map (\<lambda>e. fst (snd e)) (trackMap_of allInfo))"
    using master_loop_subset[of R E allInfo "trackMap_of allInfo" "[]" g]
    by (simp add: master_selected_def)
  have dis: "distinct (fst (master_selected R E allInfo g))"
    using master_loop_distinct[of "[]" "trackMap_of allInfo" R E allInfo g]
      keyed_tids_distinct[OF k assms]
    by (simp add: master_selected_def)
  have once: "\<not> (t1 \<in> set (map (\<lambda>e. fst (snd e)) (trackMap_of allInfo)) \<and>
             t2 \<in> set (map (\<lambda>e. fst (snd e)) (trackMap_of allInfo)))"
    if "(t1, (n, a, i1)) \<in> set allInfo" "(t2, (n, a, i2)) \<in> set allInfo" "t1 \<noteq> t2"
    using keyed_pair_once[OF k assms that] .
  from k sub dis once show ?thesis
    unfolding keyed_def by blast
qed

theorem C10_rekeyed_witness:
  "distinct (map fst [(''T'', (''Song'', ''X'', Some ''x'')), (''V'', (''Other'', ''X'', Some ''x'')),
      (''U'', (''Song'', ''X'', Some ''y''))])
   \<and> trackMap_of [(''T'', (''Song'', ''X'', Some ''x'')), (''V'', (''Other'', ''X'', Some ''x'')),
      (''U'', (''Song'', ''X'', Some ''y''))]
     = [(''Song - X'', (''U'', ''Song'', ''X'')), (''Other - X'', (''V'', ''Other'', ''X''))]
   \<and> \<not> (''T'' \<in> set (fst (master_selected scripted env0
          [(''T'', (''Song'', ''X'', Some ''x'')), (''V'', (''Other'', ''X'', Some ''x'')),
           (''U'', (''Song'', ''X'', Some ''y''))] [1 / 2, 1 / 2])) \<and>
        ''U'' \<in> set (fst (master_selected scripted env0
          [(''T'', (''Song'', ''X'', Some ''x'')), (''V'', (''Other'', ''X'', Some ''x'')),
           (''U'', (''Song'', ''X'', Some ''y''))] [1 / 2, 1 / 2])))"
proof -
  let ?info = "[(''T'', (''Song'', ''X'', Some ''x'')), (''V'', (''Other'', ''X'', Some ''x'')),
      (''U'', (''Song'', ''X'', Some ''y''))]"
  have d: "distinct (map fst ?info)" by simp
  have tm: "trackMap_of ?info
     = [(''Song - X'', (''U'', ''Song'', ''X'')), (''Other - X'', (''V'', ''Other'', ''X''))]"
    by (simp add: trackMap_of_def)
  have m1: "(''T'', (''Song'', ''X'', Some ''x'')) \<in> set ?info" by simp
  have m2: "(''U'', (''Song'', ''X'', Some ''y'')) \<in> set ?info" by simp
  have ne: "''T'' \<noteq> ''U''" by simp
  from C10_rekeyed[OF d, where ?t1.0 = "''T''" and ?t2.0 = "''U''" and n = "''Song''" and a = "''X''"
      and ?i1.0 = "Some ''x''" and ?i2.0 = "Some ''y''" and R = scripted and E = env0
      and g = "[1 / 2, 1 / 2]"] m1 m2 ne
  have "\<not> (''T'' \<in> set (fst (master_selected scripted env0 ?info [1 / 2, 1 / 2])) \<and>
        ''U'' \<in> set (fst (master_selected scripted env0 ?info [1 / 2, 1 / 2])))"
    by blast
  with d tm show ?thesis by blast
qed

subsection \<open>Sampling artists and songs\<close>










section \<open>Properties of the paginated fetches\<close>

lemma withRetry_returns:
  assumes "func (remote c) = (Returns r, w')"
  shows "withRetry func c = (Inr r, c\<lparr>remote := w', apiCallCount := apiCallCount c + 1\<rparr>)"
proof -
  have "call_with_timeout func 60 (remote c) = (Inr r, w')"
    using assms by (simp add: call_with_timeout_def)
  moreover have "(0::nat) < maxRetries" by (simp add: maxRetries_def)
  ultimately show ?thesis
    unfolding withRetry_def by (subst withRetry_loop.simps) (simp del: withRetry_loop.simps)
qed

lemma collect_ids_acc: "collect_ids its acc = acc @ collect_ids its []"
proof (induction its arbitrary: acc)
  case Nil
  then show ?case by simp
next
  case (Cons item its)
  show ?case
  proof (cases item)
    case None
    with Cons[of acc] show ?thesis by simp
  next
    case (Some tid)
    from Cons[of "acc @ [tid]"] Cons[of "[tid]"] Cons[of acc] Some show ?thesis by simp
  qed
qed

lemma collect_ids_append:
  "collect_ids (xs @ ys) [] = collect_ids xs [] @ collect_ids ys []"
proof (induction xs)
  case Nil
  then show ?case by simp
next
  case (Cons item xs)
  show ?case
  proof (cases item)
    case None
    with Cons show ?thesis by simp
  next
    case (Some tid)
    from Cons collect_ids_acc[of "xs @ ys" "[tid]"] collect_ids_acc[of xs "[tid]"] Some
    show ?thesis by simp
  qed
qed

lemma collect_ids_all:
  "\<forall>item \<in> set xs. \<exists>tid. item = Some tid \<and> tid \<noteq> [] \<Longrightarrow>
   collect_ids xs [] = map the xs"
proof (induction xs)
  case Nil
  then show ?case by simp
next
  case (Cons item xs)
  then obtain tid where "item = Some tid" "tid \<noteq> []" by auto
  with Cons collect_ids_acc[of xs "[tid]"] show ?case by simp
qed

lemma pages_0: "0 < p \<Longrightarrow> pages 0 p = 0"
  by (simp add: pages_def)

lemma pages_small: "0 < n \<Longrightarrow> n \<le> p \<Longrightarrow> pages n p = 1"
proof -
  assume a: "0 < n" "n \<le> p"
  have "(n + p - 1) div p = 1"
    by (rule div_nat_eqI) (use a in simp_all)
  then show ?thesis by (simp add: pages_def)
qed

lemma pages_step: "0 < p \<Longrightarrow> p < n \<Longrightarrow> pages n p = Suc (pages (n - p) p)"
proof -
  assume a: "0 < p" "p < n"
  have e1: "n + p - 1 = (n - 1) + p" using a by simp
  have e2: "n - p + p - 1 = n - 1" using a by simp
  have "((n - 1) + p) div p = (n - 1) div p + 1"
    using a by (simp only: div_add_self2)
  then show ?thesis
    unfolding pages_def e1 e2 by simp
qed


lemma pages_pos: "0 < p \<Longrightarrow> 0 < n \<Longrightarrow> 0 < pages n p"
proof (cases "n \<le> p")
  case True
  assume "0 < p" "0 < n"
  with True pages_small[of n p] show ?thesis by simp
next
  case False
  assume "0 < p" "0 < n"
  with False pages_step[of p n] show ?thesis by simp
qed

lemma collect_ids_split:
  "collect_ids (take p (drop off xs)) acc @ collect_ids (drop (off + p) xs) []
     = acc @ collect_ids (drop off xs) []"
proof -
  have "drop (off + p) xs = drop p (drop off xs)"
    by (simp add: add.commute)
  then have "drop off xs = take p (drop off xs) @ drop (off + p) xs"
    by (simp only: append_take_drop_id)
  then have "collect_ids (drop off xs) []
      = collect_ids (take p (drop off xs)) [] @ collect_ids (drop (off + p) xs) []"
    using collect_ids_append[of "take p (drop off xs)" "drop (off + p) xs"] by simp
  with collect_ids_acc[of "take p (drop off xs)" acc] show ?thesis by simp
qed

lemma playlist_loop_paged:
  assumes P: "0 < P"
  shows "getPlaylistTracks_loop (paged_service xs) (page_at xs P off) acc c =
     Some (Inr (acc @ collect_ids (drop off xs) []),
           c\<lparr>remote := remote c + (pages (length xs - off) P - 1),
             apiCallCount := apiCallCount c + (pages (length xs - off) P - 1)\<rparr>)"
proof (induction "length xs - off" arbitrary: off acc c rule: less_induct)
  case less
  show ?case
  proof (cases "off + P < length xs")
    case True
    define c' where "c' = c\<lparr>remote := Suc (remote c), apiCallCount := apiCallCount c + 1\<rparr>"
    define acc' where "acc' = collect_ids (take P (drop off xs)) acc"
    have nx: "next_cursor (page_at xs P off) = Some (off + P, P)"
      using True by (simp add: page_at_def)
    have it: "items (page_at xs P off) = take P (drop off xs)"
      by (simp add: page_at_def)
    have "client_next (paged_service xs) (off + P, P) (remote c)
        = (Returns (page_at xs P (off + P)), Suc (remote c))"
      by (simp add: paged_service_def)
    then have wr: "withRetry (client_next (paged_service xs) (off + P, P)) c
        = (Inr (page_at xs P (off + P)), c')"
      unfolding c'_def by (rule withRetry_returns)
    have step: "getPlaylistTracks_loop (paged_service xs) (page_at xs P off) acc c
        = getPlaylistTracks_loop (paged_service xs) (page_at xs P (off + P)) acc' c'"
      by (subst getPlaylistTracks_loop.simps) (simp add: nx it wr acc'_def)
    have "length xs - (off + P) < length xs - off" using True P by simp
    from less[OF this, of acc' c']
    have ih: "getPlaylistTracks_loop (paged_service xs) (page_at xs P (off + P)) acc' c'
        = Some (Inr (acc' @ collect_ids (drop (off + P) xs) []),
           c'\<lparr>remote := remote c' + (pages (length xs - (off + P)) P - 1),
              apiCallCount := apiCallCount c' + (pages (length xs - (off + P)) P - 1)\<rparr>)" .
    have ids: "acc' @ collect_ids (drop (off + P) xs) [] = acc @ collect_ids (drop off xs) []"
      unfolding acc'_def by (rule collect_ids_split)
    have "P < length xs - off" using True by simp
    from pages_step[OF P this]
    have p1: "pages (length xs - off) P = Suc (pages (length xs - (off + P)) P)" by simp
    have "0 < length xs - (off + P)" using True by simp
    from pages_pos[OF P this] have p2: "0 < pages (length xs - (off + P)) P" .
    have cnt: "Suc (pages (length xs - (off + P)) P - 1) = pages (length xs - off) P - 1"
      using p1 p2 by simp
    have "c'\<lparr>remote := remote c' + (pages (length xs - (off + P)) P - 1),
              apiCallCount := apiCallCount c' + (pages (length xs - (off + P)) P - 1)\<rparr>
        = c\<lparr>remote := remote c + (pages (length xs - off) P - 1),
             apiCallCount := apiCallCount c + (pages (length xs - off) P - 1)\<rparr>"
      using cnt by (simp add: c'_def)
    with step ih ids show ?thesis by simp
  next
    case False
    have nx: "next_cursor (page_at xs P off) = None"
      using False by (simp add: page_at_def)
    have it: "items (page_at xs P off) = drop off xs"
      using False by (simp add: page_at_def)
    have "pages (length xs - off) P - 1 = 0"
    proof (cases "length xs - off = 0")
      case True
      then show ?thesis using pages_0[OF P] by simp
    next
      case False
      then have "0 < length xs - off" by simp
      moreover have "length xs - off \<le> P" using \<open>\<not> off + P < length xs\<close> by simp
      ultimately show ?thesis using pages_small[of "length xs - off" P] by simp
    qed
    then have cnt: "c\<lparr>remote := remote c + (pages (length xs - off) P - 1),
             apiCallCount := apiCallCount c + (pages (length xs - off) P - 1)\<rparr> = c"
      by simp
    have "getPlaylistTracks_loop (paged_service xs) (page_at xs P off) acc c
        = Some (Inr (collect_ids (drop off xs) acc), c)"
      by (subst getPlaylistTracks_loop.simps) (simp add: nx it)
    with cnt collect_ids_acc[of "drop off xs" acc] show ?thesis by simp
  qed
qed

lemma getPlaylistTracks_paged:
  "getPlaylistTracks (paged_service xs) playlistId c =
     Some (Inr (collect_ids xs []),
           c\<lparr>remote := remote c + max 1 (pages (length xs) 100),
             apiCallCount := apiCallCount c + max 1 (pages (length xs) 100)\<rparr>)"
proof -
  define c' where "c' = c\<lparr>remote := Suc (remote c), apiCallCount := apiCallCount c + 1\<rparr>"
  have "playlist_items (paged_service xs) playlistId 100 (remote c)
        = (Returns (page_at xs 100 0), Suc (remote c))"
    by (simp add: paged_service_def)
  then have wr: "withRetry (playlist_items (paged_service xs) playlistId 100) c
      = (Inr (page_at xs 100 0), c')"
    unfolding c'_def by (rule withRetry_returns)
  have P: "(0::nat) < 100" by simp
  have "Suc (pages (length xs) 100 - 1) = max 1 (pages (length xs) 100)" by simp
  then have "c'\<lparr>remote := remote c' + (pages (length xs - 0) 100 - 1),
             apiCallCount := apiCallCount c' + (pages (length xs - 0) 100 - 1)\<rparr>
      = c\<lparr>remote := remote c + max 1 (pages (length xs) 100),
             apiCallCount := apiCallCount c + max 1 (pages (length xs) 100)\<rparr>"
    by (simp add: c'_def)
  with playlist_loop_paged[OF P, of xs 0 "[]" c'] wr show ?thesis
    by (simp add: getPlaylistTracks_def)
qed


lemma liked_loop_paged:
  "getLikedTracks_loop (paged_service xs) off acc c =
     Some (Inr (acc @ collect_ids (drop off xs) []),
           c\<lparr>remote := remote c + Suc (pages (length xs - off) 50),
             apiCallCount := apiCallCount c + Suc (pages (length xs - off) 50)\<rparr>)"
proof (induction "length xs - off" arbitrary: off acc c rule: less_induct)
  case less
  define c' where "c' = c\<lparr>remote := Suc (remote c), apiCallCount := apiCallCount c + 1\<rparr>"
  have P: "(0::nat) < 50" by simp
  have "current_user_saved_tracks (paged_service xs) 50 off (remote c)
      = (Returns (page_at xs 50 off), Suc (remote c))"
    by (simp add: paged_service_def)
  then have wr: "withRetry (current_user_saved_tracks (paged_service xs) 50 off) c
      = (Inr (page_at xs 50 off), c')"
    unfolding c'_def by (rule withRetry_returns)
  have it: "items (page_at xs 50 off) = take 50 (drop off xs)"
    by (simp add: page_at_def)
  show ?case
  proof (cases "off < length xs")
    case False
    then have e: "take 50 (drop off xs) = []" "drop off xs = []" "length xs - off = 0"
      by simp_all
    have "getLikedTracks_loop (paged_service xs) off acc c = Some (Inr acc, c')"
      by (subst getLikedTracks_loop.simps) (use False in \<open>simp add: wr it\<close>)
    then show ?thesis using e pages_0[OF P] by (simp add: c'_def)
  next
    case True
    define off' where "off' = off + length (take 50 (drop off xs))"
    define acc' where "acc' = collect_ids (take 50 (drop off xs)) acc"
    have ne: "take 50 (drop off xs) \<noteq> []" using True by simp
    have step: "getLikedTracks_loop (paged_service xs) off acc c
        = getLikedTracks_loop (paged_service xs) off' acc' c'"
      by (subst getLikedTracks_loop.simps) (use True in \<open>simp add: wr it off'_def acc'_def\<close>)
    have "length xs - off' < length xs - off" using True by (simp add: off'_def)
    from less[OF this, of acc' c']
    have ih: "getLikedTracks_loop (paged_service xs) off' acc' c'
        = Some (Inr (acc' @ collect_ids (drop off' xs) []),
           c'\<lparr>remote := remote c' + Suc (pages (length xs - off') 50),
              apiCallCount := apiCallCount c' + Suc (pages (length xs - off') 50)\<rparr>)" .
    have ids: "acc' @ collect_ids (drop off' xs) [] = acc @ collect_ids (drop off xs) []"
    proof (cases "50 < length xs - off")
      case True
      then have "off' = off + 50" by (simp add: off'_def)
      then show ?thesis unfolding acc'_def by (simp only: collect_ids_split)
    next
      case False
      then have "take 50 (drop off xs) = drop off xs" "drop off' xs = []"
        by (simp_all add: off'_def)
      then show ?thesis using collect_ids_acc[of "drop off xs" acc] by (simp add: acc'_def)
    qed
    have cnt: "Suc (pages (length xs - off') 50) = pages (length xs - off) 50"
    proof (cases "50 < length xs - off")
      case True
      then have "off' = off + 50" by (simp add: off'_def)
      with pages_step[OF P True] show ?thesis by simp
    next
      case False
      then have "length xs - off' = 0" by (simp add: off'_def)
      moreover have "pages (length xs - off) 50 = 1"
        using pages_small[of "length xs - off" 50] False \<open>off < length xs\<close> by simp
      ultimately show ?thesis using pages_0[OF P] by simp
    qed
    have "c'\<lparr>remote := remote c' + Suc (pages (length xs - off') 50),
              apiCallCount := apiCallCount c' + Suc (pages (length xs - off') 50)\<rparr>
        = c\<lparr>remote := remote c + Suc (pages (length xs - off) 50),
             apiCallCount := apiCallCount c + Suc (pages (length xs - off) 50)\<rparr>"
      using cnt by (simp add: c'_def)
    with step ih ids show ?thesis by simp
  qed
qed

lemma getLikedTracks_paged:
  "getLikedTracks (paged_service xs) c =
     Some (Inr (collect_ids xs []),
           c\<lparr>remote := remote c + Suc (pages (length xs) 50),
             apiCallCount := apiCallCount c + Suc (pages (length xs) 50)\<rparr>)"
  using liked_loop_paged[of xs 0 "[]" c] by (simp add: getLikedTracks_def)

lemma pages_ceiling: "0 < p \<Longrightarrow> int (pages n p) = \<lceil>real n / real p\<rceil>"
proof (induction n rule: less_induct)
  case (less n)
  show ?case
  proof (cases "n = 0")
    case True
    then show ?thesis using pages_0[OF less.prems] by simp
  next
    case False
    show ?thesis
    proof (cases "n \<le> p")
      case True
      with False have "0 < real n / real p" "real n / real p \<le> 1" using less.prems by simp_all
      then have "\<lceil>real n / real p\<rceil> = 1" by (simp add: ceiling_eq_iff)
      with pages_small[of n p] True False show ?thesis by simp
    next
      case f: False
      then have lt: "p < n" by simp
      have "n - p < n" using lt less.prems by simp
      from less.IH[OF this less.prems] have ih: "int (pages (n - p) p) = \<lceil>real (n - p) / real p\<rceil>" .
      have "real n / real p = real (n - p) / real p + 1"
        using lt less.prems by (simp add: field_simps of_nat_diff)
      then have "\<lceil>real n / real p\<rceil> = \<lceil>real (n - p) / real p\<rceil> + 1" by simp
      with ih pages_step[OF less.prems lt] show ?thesis by simp
    qed
  qed
qed

text \<open>
  Claim C5. As stated (a fetch over \<open>N\<close> items in pages of size \<open>P\<close> makes exactly
  \<open>ceil(N/P)\<close> page requests) the claim does not hold: the fetch of the liked tracks asks
  for pages until one comes back empty, so over one item it makes two requests where
  \<open>ceil(1/50)\<close> is 1; and the fetch of a playlist makes its first request before it looks
  at any item, so over an empty playlist it makes one request where \<open>ceil(0/100)\<close> is 0.
\<close>

theorem C5_counterexample:
  "getLikedTracks (paged_service [Some ''a'']) (conn0 0)
     = Some (Inr [''a''], \<lparr>apiCallCount = 2, slept = [], remote = 2\<rparr>)
   \<and> pages (length [Some ''a'']) 50 = 1
   \<and> getPlaylistTracks (paged_service []) ''pl'' (conn0 0)
     = Some (Inr [], \<lparr>apiCallCount = 1, slept = [], remote = 1\<rparr>)
   \<and> pages (length ([] :: string option list)) 100 = 0"
  using getLikedTracks_paged[of "[Some ''a'']" "conn0 0"]
    getPlaylistTracks_paged[of "[]" "''pl''" "conn0 0"]
  by (simp add: pages_def conn0_def)

text \<open>
  Claim C5, amended. Over a service that holds \<open>N\<close> items, serves them in pages of the
  size asked for and never fails, both fetches end. The fetch of a playlist (pages of 100)
  makes \<open>ceil(N/100)\<close> page requests, and one request when the playlist is empty; the fetch
  of the liked tracks (pages of 50) makes \<open>ceil(N/50) + 1\<close> page requests, the last one
  for the empty page that ends it. Both return, in the order of the pages, the ids of the
  items that have an id that is not empty: all \<open>N\<close> of them when every item has one.
\<close>

theorem C5_pagination:
  "getPlaylistTracks (paged_service xs) playlistId c =
     Some (Inr (collect_ids xs []),
           c\<lparr>remote := remote c + max 1 (pages (length xs) 100),
             apiCallCount := apiCallCount c + max 1 (pages (length xs) 100)\<rparr>)
   \<and> getLikedTracks (paged_service xs) c =
     Some (Inr (collect_ids xs []),
           c\<lparr>remote := remote c + Suc (pages (length xs) 50),
             apiCallCount := apiCallCount c + Suc (pages (length xs) 50)\<rparr>)
   \<and> int (pages (length xs) 100) = \<lceil>real (length xs) / 100\<rceil>
   \<and> int (pages (length xs) 50) = \<lceil>real (length xs) / 50\<rceil>
   \<and> ((\<forall>item \<in> set xs. \<exists>tid. item = Some tid \<and> tid \<noteq> []) \<longrightarrow>
        collect_ids xs [] = map the xs \<and> length (collect_ids xs []) = length xs)"
proof -
  have a: "int (pages (length xs) 100) = \<lceil>real (length xs) / 100\<rceil>"
    using pages_ceiling[of 100 "length xs"] by simp
  have b: "int (pages (length xs) 50) = \<lceil>real (length xs) / 50\<rceil>"
    using pages_ceiling[of 50 "length xs"] by simp
  have c: "collect_ids xs [] = map the xs \<and> length (collect_ids xs []) = length xs"
    if "\<forall>item \<in> set xs. \<exists>tid. item = Some tid \<and> tid \<noteq> []"
    using collect_ids_all[OF that] by simp
  from a b c getPlaylistTracks_paged[of xs playlistId c] getLikedTracks_paged[of xs c]
  show ?thesis by blast
qed

theorem C5_pagination_witness:
  "collect_ids [Some ''a'', Some ''b''] [] = map the [Some ''a'', Some ''b'']
   \<and> getPlaylistTracks (paged_service [Some ''a'', Some ''b'']) ''pl'' (conn0 0)
     = Some (Inr [''a'', ''b''], \<lparr>apiCallCount = 1, slept = [], remote = 1\<rparr>)
   \<and> getLikedTracks (paged_service [Some ''a'', Some ''b'']) (conn0 0)
     = Some (Inr [''a'', ''b''], \<lparr>apiCallCount = 2, slept = [], remote = 2\<rparr>)"
proof -
  have h: "\<forall>item \<in> set [Some ''a'', Some ''b'']. \<exists>tid. item = Some tid \<and> tid \<noteq> []"
    by simp
  from C5_pagination[of "[Some ''a'', Some ''b'']" "''pl''" "conn0 0"] h
  show ?thesis by (simp add: pages_def conn0_def)
qed

section \<open>Properties of getTracksInfo\<close>

lemma validTrackIds_filter:
  "map IdStr (validTrackIds trackIds)
     = filter (\<lambda>r. case r of IdStr tid \<Rightarrow> tid \<noteq> [] | _ \<Rightarrow> False) trackIds"
proof (induction trackIds)
  case Nil
  then show ?case by (simp add: validTrackIds_def map_filter_simps)
next
  case (Cons r rs)
  then show ?case by (cases r) (simp_all add: validTrackIds_def map_filter_simps)
qed

lemma batches_concat: "concat (batches ids i) = drop i ids"
proof (induction ids i rule: batches.induct)
  case (1 ids i)
  show ?case
  proof (cases "i < length ids")
    case True
    have "drop (i + batchSize) ids = drop batchSize (drop i ids)" by (simp add: add.commute)
    with "1.IH"[OF True] True show ?thesis
      by (simp only: batches.simps[of ids i] if_True concat.simps append_take_drop_id)
  next
    case False
    then show ?thesis by simp
  qed
qed

lemma batches_sizes: "b \<in> set (batches ids i) \<Longrightarrow> 0 < length b \<and> length b \<le> batchSize"
proof (induction ids i rule: batches.induct)
  case (1 ids i)
  show ?case
  proof (cases "i < length ids")
    case True
    with "1.prems" have "b = take batchSize (drop i ids) \<or> b \<in> set (batches ids (i + batchSize))"
      by (simp del: batches.simps add: batches.simps[of ids i])
    then show ?thesis
    proof
      assume "b = take batchSize (drop i ids)"
      with True show ?thesis by (simp add: batchSize_def)
    next
      assume "b \<in> set (batches ids (i + batchSize))"
      from "1.IH"[OF True this] show ?thesis .
    qed
  next
    case False
    with "1.prems" show ?thesis by simp
  qed
qed

lemma getTracksInfo_loop_batches:
  "getTracksInfo_loop tracks ids i info c = run_batches tracks (batches ids i) info c"
proof (induction tracks ids i info c rule: getTracksInfo_loop.induct)
  case (1 tracks ids i info c)
  show ?case
  proof (cases "i < length ids")
    case False
    then show ?thesis by simp
  next
    case True
    obtain r c' where wr: "withRetry (tracks (take batchSize (drop i ids))) c = (r, c')"
      by (cases "withRetry (tracks (take batchSize (drop i ids))) c")
    have b: "batches ids i = take batchSize (drop i ids) # batches ids (i + batchSize)"
      using True by (simp del: batches.simps add: batches.simps[of ids i])
    show ?thesis
    proof (cases r)
      case (Inl e)
      from "1.IH"(1)[OF True wr[symmetric] Inl]
      have "getTracksInfo_loop tracks ids (i + batchSize) info c'
          = run_batches tracks (batches ids (i + batchSize)) info c'" .
      moreover have "getTracksInfo_loop tracks ids i info c
          = getTracksInfo_loop tracks ids (i + batchSize) info c'"
        using True wr Inl by (simp del: getTracksInfo_loop.simps add: getTracksInfo_loop.simps[of tracks ids i])
      ultimately show ?thesis using wr Inl by (simp del: batches.simps add: b)
    next
      case (Inr results)
      from "1.IH"(2)[OF True wr[symmetric] Inr]
      have "getTracksInfo_loop tracks ids (i + batchSize) (process_tracks results info) c'
          = run_batches tracks (batches ids (i + batchSize)) (process_tracks results info) c'" .
      moreover have "getTracksInfo_loop tracks ids i info c
          = getTracksInfo_loop tracks ids (i + batchSize) (process_tracks results info) c'"
        using True wr Inr by (simp del: getTracksInfo_loop.simps add: getTracksInfo_loop.simps[of tracks ids i])
      ultimately show ?thesis using wr Inr by (simp del: batches.simps add: b)
    qed
  qed
qed

lemma getTracksInfo_batches:
  "getTracksInfo tracks trackIds c = run_batches tracks (batches (validTrackIds trackIds) 0) [] c"
proof (cases "length (validTrackIds trackIds) = 0")
  case True
  then show ?thesis by (simp add: getTracksInfo_def)
next
  case False
  then show ?thesis
    by (simp del: getTracksInfo_loop.simps batches.simps
        add: getTracksInfo_def getTracksInfo_loop_batches)
qed


lemma extends_by_refl: "extends_by cat info info {}"
  by (simp add: extends_by_def)

lemma extends_by_trans:
  assumes "extends_by cat a b S" and "extends_by cat b c T"
  shows "extends_by cat a c (S \<union> T)"
proof -
  have d: "distinct (map fst a) \<longrightarrow> distinct (map fst c)"
    using assms by (simp add: extends_by_def)
  have k: "set (map fst c) = set (map fst a) \<union> (S \<union> T)"
    using assms unfolding extends_by_def by blast
  have m: "map_of c tid = (if tid \<in> S \<union> T then map_option meta_of (cat tid) else map_of a tid)"
    for tid
  proof -
    from assms(2) have 1: "map_of c tid
        = (if tid \<in> T then map_option meta_of (cat tid) else map_of b tid)"
      unfolding extends_by_def by blast
    from assms(1) have 2: "map_of b tid
        = (if tid \<in> S then map_option meta_of (cat tid) else map_of a tid)"
      unfolding extends_by_def by blast
    from 1 2 show ?thesis by simp
  qed
  from d k m show ?thesis unfolding extends_by_def by blast
qed

lemma process_tracks_Some:
  "process_tracks (Some tr # rest) info
     = process_tracks rest (AList.update (track_id tr) (meta_of tr) info)"
  by (cases "track_artists tr") (simp_all add: meta_of_def)

lemma extends_by_update:
  assumes "cat tid = Some tr" and "track_id tr = tid"
  shows "extends_by cat info (AList.update tid (meta_of tr) info) {tid}"
proof -
  have d: "distinct (map fst info) \<longrightarrow> distinct (map fst (AList.update tid (meta_of tr) info))"
    by (simp add: distinct_update)
  have k: "set (map fst (AList.update tid (meta_of tr) info)) = set (map fst info) \<union> {tid}"
    using dom_update[of tid "meta_of tr" info] by auto
  have m: "map_of (AList.update tid (meta_of tr) info) t
      = (if t \<in> {tid} then map_option meta_of (cat t) else map_of info t)" for t
    using assms by (simp add: update_conv')
  from d k m show ?thesis unfolding extends_by_def by blast
qed

lemma extends_by_process:
  assumes "\<forall>tid \<in> set b. \<exists>tr. cat tid = Some tr \<and> track_id tr = tid"
  shows "extends_by cat info (process_tracks (map cat b) info) (set b)"
  using assms
proof (induction b arbitrary: info)
  case Nil
  then show ?case by (simp add: extends_by_refl)
next
  case (Cons x b)
  then obtain tr where tr: "cat x = Some tr" "track_id tr = x" by auto
  have step: "process_tracks (map cat (x # b)) info
      = process_tracks (map cat b) (AList.update x (meta_of tr) info)"
    using tr process_tracks_Some[of tr "map cat b" info] by simp
  from Cons.prems have "\<forall>tid \<in> set b. \<exists>tr. cat tid = Some tr \<and> track_id tr = tid" by simp
  from Cons.IH[OF this, of "AList.update x (meta_of tr) info"]
  have "extends_by cat (AList.update x (meta_of tr) info)
      (process_tracks (map cat b) (AList.update x (meta_of tr) info)) (set b)" .
  moreover have "extends_by cat info (AList.update x (meta_of tr) info) {x}"
    using tr by (rule extends_by_update)
  ultimately have "extends_by cat info
      (process_tracks (map cat b) (AList.update x (meta_of tr) info)) ({x} \<union> set b)"
    using extends_by_trans by blast
  with step show ?case by simp
qed

lemma extends_by_run_ok:
  assumes "\<forall>b \<in> set bs. (\<forall>c. \<exists>c'. withRetry (tracks b) c = (Inr (map cat b), c'))"
    and "\<forall>b \<in> set bs. \<forall>tid \<in> set b. \<exists>tr. cat tid = Some tr \<and> track_id tr = tid"
  shows "extends_by cat info (fst (run_batches tracks bs info c)) (set (concat bs))"
  using assms
proof (induction bs arbitrary: info c)
  case Nil
  then show ?case by (simp add: extends_by_refl)
next
  case (Cons b bs)
  from Cons.prems(1) obtain c' where wr: "withRetry (tracks b) c = (Inr (map cat b), c')"
    by fastforce
  have step: "run_batches tracks (b # bs) info c
      = run_batches tracks bs (process_tracks (map cat b) info) c'"
    using wr by simp
  from Cons.prems(2) have "\<forall>tid \<in> set b. \<exists>tr. cat tid = Some tr \<and> track_id tr = tid" by simp
  from extends_by_process[OF this, of info]
  have 1: "extends_by cat info (process_tracks (map cat b) info) (set b)" .
  from Cons.prems have
    "\<forall>b \<in> set bs. (\<forall>c. \<exists>c'. withRetry (tracks b) c = (Inr (map cat b), c'))"
    "\<forall>b \<in> set bs. \<forall>tid \<in> set b. \<exists>tr. cat tid = Some tr \<and> track_id tr = tid" by simp_all
  from Cons.IH[OF this, of "process_tracks (map cat b) info" c']
  have 2: "extends_by cat (process_tracks (map cat b) info)
      (fst (run_batches tracks bs (process_tracks (map cat b) info) c')) (set (concat bs))" .
  from extends_by_trans[OF 1 2] step show ?case by simp
qed

lemma run_batches_append:
  "run_batches tracks (xs @ ys) info c
     = run_batches tracks ys (fst (run_batches tracks xs info c)) (snd (run_batches tracks xs info c))"
proof (induction xs arbitrary: info c)
  case Nil
  then show ?case by simp
next
  case (Cons b xs)
  obtain r c' where wr: "withRetry (tracks b) c = (r, c')" by (cases "withRetry (tracks b) c")
  show ?case
  proof (cases r)
    case (Inl e)
    with wr Cons[of info c'] show ?thesis by simp
  next
    case (Inr results)
    with wr Cons[of "process_tracks results info" c'] show ?thesis by simp
  qed
qed

lemma extends_by_run_one_failed:
  assumes pre: "\<forall>b \<in> set pre. (\<forall>c. \<exists>c'. withRetry (tracks b) c = (Inr (map cat b), c'))"
    and post: "\<forall>b \<in> set post. (\<forall>c. \<exists>c'. withRetry (tracks b) c = (Inr (map cat b), c'))"
    and bad: "\<forall>c. \<exists>e c'. withRetry (tracks failed) c = (Inl e, c')"
    and res: "\<forall>b \<in> set pre \<union> set post. \<forall>tid \<in> set b.
                \<exists>tr. cat tid = Some tr \<and> track_id tr = tid"
  shows "extends_by cat info (fst (run_batches tracks (pre @ failed # post) info c))
           (set (concat pre) \<union> set (concat post))"
proof -
  define i1 where "i1 = fst (run_batches tracks pre info c)"
  define c1 where "c1 = snd (run_batches tracks pre info c)"
  from bad obtain e c2 where wr: "withRetry (tracks failed) c1 = (Inl e, c2)" by blast
  have run: "run_batches tracks (pre @ failed # post) info c = run_batches tracks post i1 c2"
    using run_batches_append[of tracks pre "failed # post" info c] wr
    by (simp add: i1_def c1_def)
  from res have r1: "\<forall>b \<in> set pre. \<forall>tid \<in> set b. \<exists>tr. cat tid = Some tr \<and> track_id tr = tid"
    and r2: "\<forall>b \<in> set post. \<forall>tid \<in> set b. \<exists>tr. cat tid = Some tr \<and> track_id tr = tid"
    by blast+
  from extends_by_run_ok[OF pre r1, of info c]
  have 1: "extends_by cat info i1 (set (concat pre))" by (simp add: i1_def)
  from extends_by_run_ok[OF post r2, of i1 c2]
  have 2: "extends_by cat i1 (fst (run_batches tracks post i1 c2)) (set (concat post))" .
  from extends_by_trans[OF 1 2] run show ?thesis by simp
qed


lemma one_failed_split:
  assumes k: "k < length bs"
    and ok: "\<forall>j < length bs. j \<noteq> k \<longrightarrow> P (bs ! j)"
  shows "bs = take k bs @ bs ! k # drop (Suc k) bs"
    and "\<forall>b \<in> set (take k bs). P b"
    and "\<forall>b \<in> set (drop (Suc k) bs). P b"
    and "\<forall>j < length bs. j \<noteq> k \<longrightarrow> bs ! j \<in> set (take k bs) \<union> set (drop (Suc k) bs)"
proof -
  show "bs = take k bs @ bs ! k # drop (Suc k) bs" using k by (rule id_take_nth_drop)
  show "\<forall>b \<in> set (take k bs). P b"
  proof
    fix b assume "b \<in> set (take k bs)"
    then obtain j where "j < length (take k bs)" "take k bs ! j = b"
      by (auto simp: in_set_conv_nth)
    then have "j < length bs" "j \<noteq> k" "bs ! j = b" using k by simp_all
    with ok show "P b" by blast
  qed
  show "\<forall>b \<in> set (drop (Suc k) bs). P b"
  proof
    fix b assume "b \<in> set (drop (Suc k) bs)"
    then obtain j where "j < length (drop (Suc k) bs)" "drop (Suc k) bs ! j = b"
      by (auto simp: in_set_conv_nth)
    then have "Suc k + j < length bs" "Suc k + j \<noteq> k" "bs ! (Suc k + j) = b" using k by simp_all
    with ok show "P b" by blast
  qed
  show "\<forall>j < length bs. j \<noteq> k \<longrightarrow> bs ! j \<in> set (take k bs) \<union> set (drop (Suc k) bs)"
  proof (intro allI impI)
    fix j assume j: "j < length bs" "j \<noteq> k"
    show "bs ! j \<in> set (take k bs) \<union> set (drop (Suc k) bs)"
    proof (cases "j < k")
      case True
      then have "take k bs ! j = bs ! j" "j < length (take k bs)" using j by simp_all
      then have "bs ! j \<in> set (take k bs)" by (metis nth_mem)
      then show ?thesis by simp
    next
      case False
      with j have gt: "Suc k \<le> j" by simp
      then have "drop (Suc k) bs ! (j - Suc k) = bs ! j" "j - Suc k < length (drop (Suc k) bs)"
        using j by simp_all
      then have "bs ! j \<in> set (drop (Suc k) bs)" by (metis nth_mem)
      then show ?thesis by simp
    qed
  qed
qed

lemma getTracksInfo_one_failed:
  assumes k: "k < length (batches (validTrackIds trackIds) 0)"
    and ok: "\<forall>j < length (batches (validTrackIds trackIds) 0). j \<noteq> k \<longrightarrow>
         (\<forall>c. \<exists>c'. withRetry (tracks (batches (validTrackIds trackIds) 0 ! j)) c
            = (Inr (map cat (batches (validTrackIds trackIds) 0 ! j)), c'))"
    and bad: "\<forall>c. \<exists>e c'. withRetry (tracks (batches (validTrackIds trackIds) 0 ! k)) c = (Inl e, c')"
    and res: "\<forall>tid \<in> set (validTrackIds trackIds). \<exists>tr. cat tid = Some tr \<and> track_id tr = tid"
  shows "extends_by cat [] (fst (getTracksInfo tracks trackIds c))
           (set (concat (take k (batches (validTrackIds trackIds) 0)))
            \<union> set (concat (drop (Suc k) (batches (validTrackIds trackIds) 0))))"
proof -
  define bs where "bs = batches (validTrackIds trackIds) 0"
  define pre where "pre = take k bs"
  define post where "post = drop (Suc k) bs"
  have k': "k < length bs" using k unfolding bs_def .
  have ok': "\<forall>j < length bs. j \<noteq> k \<longrightarrow>
      (\<lambda>b. \<forall>c. \<exists>c'. withRetry (tracks b) c = (Inr (map cat b), c')) (bs ! j)"
    using ok unfolding bs_def .
  have split: "bs = pre @ bs ! k # post" unfolding pre_def post_def
    using one_failed_split(1)[OF k' ok'] .
  have p1: "\<forall>b \<in> set pre. (\<forall>c. \<exists>c'. withRetry (tracks b) c = (Inr (map cat b), c'))"
    unfolding pre_def using one_failed_split(2)[OF k' ok'] .
  have p2: "\<forall>b \<in> set post. (\<forall>c. \<exists>c'. withRetry (tracks b) c = (Inr (map cat b), c'))"
    unfolding post_def using one_failed_split(3)[OF k' ok'] .
  have "concat bs = drop 0 (validTrackIds trackIds)" unfolding bs_def by (rule batches_concat)
  then have "concat bs = validTrackIds trackIds" by simp
  then have "set (validTrackIds trackIds) = \<Union> (set ` set bs)" by (metis set_concat)
  then have "\<forall>b \<in> set bs. set b \<subseteq> set (validTrackIds trackIds)" by blast
  moreover have "set pre \<union> set post \<subseteq> set bs"
    unfolding pre_def post_def using set_take_subset set_drop_subset by (metis Un_least)
  ultimately have r: "\<forall>b \<in> set pre \<union> set post. \<forall>tid \<in> set b.
      \<exists>tr. cat tid = Some tr \<and> track_id tr = tid"
    using res by blast
  have b: "\<forall>c. \<exists>e c'. withRetry (tracks (bs ! k)) c = (Inl e, c')"
    using bad unfolding bs_def .
  from extends_by_run_one_failed[OF p1 p2 b r, of "[]" c] split
  have "extends_by cat [] (fst (run_batches tracks bs [] c))
      (set (concat pre) \<union> set (concat post))" by (simp del: batches.simps)
  then show ?thesis
    unfolding getTracksInfo_batches bs_def pre_def post_def .
qed


text \<open>
  Claim C6, amended. The ids that are \<open>None\<close>, empty or not strings are filtered out
  first, and the loop sends the remaining ids in batches of at most 50, in order. When the
  request for one batch fails and the others are answered from a catalogue that has every
  valid id, the result has the metadata of the catalogue for every id of every other
  batch, one entry for each id. When moreover the valid ids are all different, the result
  has as many entries as there are valid ids less the ids of the failed batch, and its
  ids are exactly the valid ids outside the failed batch.
\<close>

theorem C6_partial_failure:
  assumes k: "k < length (batches (validTrackIds trackIds) 0)"
    and ok: "\<forall>j < length (batches (validTrackIds trackIds) 0). j \<noteq> k \<longrightarrow>
         (\<forall>c. \<exists>c'. withRetry (tracks (batches (validTrackIds trackIds) 0 ! j)) c
            = (Inr (map cat (batches (validTrackIds trackIds) 0 ! j)), c'))"
    and bad: "\<forall>c. \<exists>e c'. withRetry (tracks (batches (validTrackIds trackIds) 0 ! k)) c = (Inl e, c')"
    and res: "\<forall>tid \<in> set (validTrackIds trackIds). \<exists>tr. cat tid = Some tr \<and> track_id tr = tid"
  shows "map IdStr (validTrackIds trackIds)
       = filter (\<lambda>r. case r of IdStr tid \<Rightarrow> tid \<noteq> [] | _ \<Rightarrow> False) trackIds
     \<and> concat (batches (validTrackIds trackIds) 0) = validTrackIds trackIds
     \<and> (\<forall>b \<in> set (batches (validTrackIds trackIds) 0). 0 < length b \<and> length b \<le> 50)
     \<and> getTracksInfo tracks trackIds c
          = run_batches tracks (batches (validTrackIds trackIds) 0) [] c
     \<and> distinct (map fst (fst (getTracksInfo tracks trackIds c)))
     \<and> (\<forall>j < length (batches (validTrackIds trackIds) 0). j \<noteq> k \<longrightarrow>
          (\<forall>tid \<in> set (batches (validTrackIds trackIds) 0 ! j).
             \<exists>tr. cat tid = Some tr \<and>
               map_of (fst (getTracksInfo tracks trackIds c)) tid = Some (meta_of tr)))
     \<and> (distinct (validTrackIds trackIds) \<longrightarrow>
          length (fst (getTracksInfo tracks trackIds c))
            = length (validTrackIds trackIds) - length (batches (validTrackIds trackIds) 0 ! k) \<and>
          set (map fst (fst (getTracksInfo tracks trackIds c)))
            = set (validTrackIds trackIds) - set (batches (validTrackIds trackIds) 0 ! k))"
proof -
  define valid where "valid = validTrackIds trackIds"
  define bs where "bs = batches valid 0"
  define info where "info = fst (getTracksInfo tracks trackIds c)"
  define pre where "pre = take k bs"
  define post where "post = drop (Suc k) bs"
  define S where "S = set (concat pre) \<union> set (concat post)"
  have k': "k < length bs" using k unfolding bs_def valid_def .
  have E: "extends_by cat [] info S"
    using getTracksInfo_one_failed[OF k ok bad res, of c]
    unfolding info_def S_def pre_def post_def bs_def valid_def .
  have c0: "concat bs = drop 0 valid" unfolding bs_def by (rule batches_concat)
  then have cc: "concat bs = valid" by simp
  have split: "bs = pre @ bs ! k # post" unfolding pre_def post_def
    using k' by (rule id_take_nth_drop)
  have "concat bs = concat pre @ bs ! k @ concat post" by (subst split) simp
  with cc have v: "valid = concat pre @ bs ! k @ concat post" by simp
  have sizes: "\<forall>b \<in> set bs. 0 < length b \<and> length b \<le> 50"
    unfolding bs_def using batches_sizes[of _ valid 0] by (simp del: batches.simps add: batchSize_def)
  have keys: "set (map fst info) = S" and dis: "distinct (map fst info)"
    and look: "\<And>tid. tid \<in> S \<Longrightarrow> map_of info tid = map_option meta_of (cat tid)"
    using E unfolding extends_by_def by simp_all
  have others: "\<exists>tr. cat tid = Some tr \<and> map_of info tid = Some (meta_of tr)"
    if j: "j < length bs" "j \<noteq> k" and t: "tid \<in> set (bs ! j)" for j tid
  proof -
    have "\<forall>j < length bs. j \<noteq> k \<longrightarrow> (\<lambda>b. True) (bs ! j)" by simp
    from one_failed_split(4)[OF k' this] j
    have "bs ! j \<in> set pre \<union> set post" by (simp add: pre_def post_def)
    with t have inS: "tid \<in> S" unfolding S_def by auto
    have "tid \<in> set valid" using inS v unfolding S_def by auto
    with res obtain tr where "cat tid = Some tr" unfolding valid_def by blast
    with look[OF inS] show ?thesis by simp
  qed
  have count: "length info = length valid - length (bs ! k) \<and> set (map fst info) = set valid - set (bs ! k)"
    if d: "distinct valid"
  proof -
    from d v have d1: "distinct (concat pre @ concat post)"
      and disj: "S \<inter> set (bs ! k) = {}"
      unfolding S_def by auto
    have "length info = length (map fst info)" by simp
    also have "\<dots> = card (set (map fst info))" using distinct_card[OF dis] by simp
    also have "\<dots> = card (set (concat pre @ concat post))" using keys by (simp add: S_def)
    also have "\<dots> = length (concat pre @ concat post)" using distinct_card[OF d1] .
    also have "\<dots> = length valid - length (bs ! k)" by (subst v) simp
    finally have l: "length info = length valid - length (bs ! k)" .
    have "set valid = S \<union> set (bs ! k)" by (subst v) (auto simp: S_def)
    with disj keys have "set (map fst info) = set valid - set (bs ! k)" by blast
    with l show ?thesis by simp
  qed
  from validTrackIds_filter[of trackIds] cc sizes getTracksInfo_batches[of tracks trackIds c]
    dis others count
  show ?thesis
    unfolding info_def bs_def valid_def by blast
qed


lemma catalogue_ok:
  assumes "batch \<notin> set failing"
  shows "withRetry (catalogue_tracks failing batch) c
     = (Inr (map plain_track batch), c\<lparr>remote := remote c, apiCallCount := apiCallCount c + 1\<rparr>)"
proof -
  have "catalogue_tracks failing batch (remote c) = (Returns (map plain_track batch), remote c)"
    using assms by (simp add: catalogue_tracks_def)
  then show ?thesis by (rule withRetry_returns)
qed

lemma catalogue_bad:
  assumes "batch \<in> set failing"
  shows "fst (withRetry (catalogue_tracks failing batch) c)
     = Inl (SpotifyException 404 None ''not found'')"
proof -
  have "run_attempts (catalogue_tracks failing batch) (maxRetries - 0) (remote c)
      = map Inl (replicate 5 (SpotifyException 404 None ''not found''))"
    using assms
    by (simp add: catalogue_tracks_def call_with_timeout_def maxRetries_def eval_nat_numeral)
  from withRetry_loop_exhausted[OF _ _ this] show ?thesis
    by (simp add: withRetry_def maxRetries_def)
qed

text \<open>
  Claim C6. As stated (when one batch fails, the result has as many entries as there are
  valid ids less the ids of the failed batch) the claim does not hold for a list with
  repeated ids: \<open>info\<close> is a dictionary keyed by track id. Of 51 valid ids, fifty times
  \<open>a\<close> and then \<open>b\<close>, the batch of \<open>b\<close> fails, and the result has one entry, not 50.
\<close>

theorem C6_counterexample:
  "length (validTrackIds (map IdStr (replicate 50 ''a'' @ [''b'']))) = 51
   \<and> batches (validTrackIds (map IdStr (replicate 50 ''a'' @ [''b'']))) 0
       = [replicate 50 ''a'', [''b'']]
   \<and> fst (withRetry (catalogue_tracks [[''b'']] [''b'']) (conn0 ()))
       = Inl (SpotifyException 404 None ''not found'')
   \<and> fst (withRetry (catalogue_tracks [[''b'']] (replicate 50 ''a'')) (conn0 ()))
       = Inr (map plain_track (replicate 50 ''a''))
   \<and> fst (getTracksInfo (catalogue_tracks [[''b'']])
        (map IdStr (replicate 50 ''a'' @ [''b''])) (conn0 ()))
       = [(''a'', (''a'', ''Unknown'', None))]"
  by code_simp

theorem C6_partial_failure_witness:
  "length (validTrackIds (map IdStr many_ids)) = 51
   \<and> length (fst (getTracksInfo (catalogue_tracks [drop 50 many_ids])
        (map IdStr many_ids) (conn0 ()))) = 50
   \<and> map_of (fst (getTracksInfo (catalogue_tracks [drop 50 many_ids])
        (map IdStr many_ids) (conn0 ()))) ''a'' = Some (''a'', ''Unknown'', None)"
proof -
  let ?tracks = "catalogue_tracks [drop 50 many_ids] :: string list \<Rightarrow> (unit, track_obj option list) remote_op"
  let ?ids = "map IdStr many_ids"
  have bs: "batches (validTrackIds ?ids) 0 = [take 50 many_ids, drop 50 many_ids]"
    by code_simp
  have ne: "take 50 many_ids \<notin> set [drop 50 many_ids]" by code_simp
  have k: "1 < length (batches (validTrackIds ?ids) 0)" by (simp only: bs) simp
  have ok: "\<forall>j < length (batches (validTrackIds ?ids) 0). j \<noteq> 1 \<longrightarrow>
         (\<forall>c. \<exists>c'. withRetry (?tracks (batches (validTrackIds ?ids) 0 ! j)) c
            = (Inr (map plain_track (batches (validTrackIds ?ids) 0 ! j)), c'))"
  proof (intro allI impI)
    fix j c assume "j < length (batches (validTrackIds ?ids) 0)" "j \<noteq> 1"
    then have "j = 0" by (simp only: bs) simp
    then have "batches (validTrackIds ?ids) 0 ! j = take 50 many_ids" by (simp only: bs) simp
    with catalogue_ok[OF ne, of c]
    show "\<exists>c'. withRetry (?tracks (batches (validTrackIds ?ids) 0 ! j)) c
            = (Inr (map plain_track (batches (validTrackIds ?ids) 0 ! j)), c')" by simp
  qed
  have bad: "\<forall>c. \<exists>e c'. withRetry (?tracks (batches (validTrackIds ?ids) 0 ! 1)) c = (Inl e, c')"
  proof
    fix c
    have "batches (validTrackIds ?ids) 0 ! 1 = drop 50 many_ids" by (simp only: bs) simp
    moreover have "drop 50 many_ids \<in> set [drop 50 many_ids]" by simp
    from catalogue_bad[OF this, of c]
    have "\<exists>e c'. withRetry (?tracks (drop 50 many_ids)) c = (Inl e, c')"
      by (cases "withRetry (?tracks (drop 50 many_ids)) c") auto
    ultimately show "\<exists>e c'. withRetry (?tracks (batches (validTrackIds ?ids) 0 ! 1)) c = (Inl e, c')"
      by simp
  qed
  have res: "\<forall>tid \<in> set (validTrackIds ?ids). \<exists>tr. plain_track tid = Some tr \<and> track_id tr = tid"
    by (simp add: plain_track_def)
  have d: "distinct (validTrackIds ?ids)" by code_simp
  have l: "length (validTrackIds ?ids) = 51" by code_simp
  have l1: "length (batches (validTrackIds ?ids) 0 ! 1) = 1" by code_simp
  have a0: "''a'' \<in> set (batches (validTrackIds ?ids) 0 ! 0)" by code_simp
  have z: "(0::nat) < length (batches (validTrackIds ?ids) 0)" "(0::nat) \<noteq> 1"
    by (simp only: bs) simp_all
  note T = C6_partial_failure[OF k ok bad res, of "conn0 ()"]
  from T d have "length (fst (getTracksInfo ?tracks ?ids (conn0 ())))
      = length (validTrackIds ?ids) - length (batches (validTrackIds ?ids) 0 ! 1)"
    by blast
  then have len: "length (fst (getTracksInfo ?tracks ?ids (conn0 ()))) = 50"
    by (simp only: l l1)
  from T z a0 have "\<exists>tr. plain_track ''a'' = Some tr \<and>
      map_of (fst (getTracksInfo ?tracks ?ids (conn0 ()))) ''a'' = Some (meta_of tr)"
    by blast
  then have m: "map_of (fst (getTracksInfo ?tracks ?ids (conn0 ()))) ''a''
      = Some (''a'', ''Unknown'', None)"
    by (auto simp: plain_track_def meta_of_def)
  from l len m show ?thesis by blast
qed

end
